theory Spec2Isabelle
  imports
    Complex_Main
    "HOL-Library.AList"
    "HOL-Library.Char_ord"
    "HOL-Library.List_Lexorder"
begin

section \<open>Python values used by the model lifecycle subsystem\<close>

text \<open>
  A Python \<^verbatim>\<open>dict\<close> keeps its keys distinct and in insertion order. It is
  modelled as an association list: \<open>map_of\<close> reads a key, \<open>AList.update\<close> writes
  one (an existing key keeps its position, a new key is appended), and the
  distinctness of the keys is a hypothesis wherever a theorem depends on it.
  Python compares strings lexicographically by code point, a proper prefix being
  smaller; this is the order of \<open>string\<close> given by the library.
\<close>

text \<open>
  The exceptions the modelled code can raise. \<open>MissingFeatures\<close> is the
  \<^verbatim>\<open>ValueError\<close> of \<^verbatim>\<open>prepare_input\<close>, carrying the list its message
  prints; \<open>External\<close> stands for whatever a library outside the repository raises.
\<close>

datatype error =
    ValueError string
  | KeyError string
  | IndexError string
  | AttributeError string
  | NotImplementedError string
  | RecursionError
  | MissingFeatures "string list"
  | External string

section \<open>src/models/registry.py\<close>

text \<open>
  A registry entry, as \<^verbatim>\<open>register_model\<close> writes it. The key
  \<^verbatim>\<open>registered_at\<close> is read with \<^verbatim>\<open>.get("registered_at", "")\<close>, so it may
  be absent; \<^verbatim>\<open>stage\<close> exists only after \<^verbatim>\<open>promote_model\<close>. Metrics and
  metadata are opaque here.
\<close>

record ('m, 'd) entry =
  model_id :: string
  entry_model_name :: string
  version :: string
  path :: string
  registered_at :: "string option"
  metrics :: 'm
  metadata :: 'd
  status :: string
  stage :: "string option"

type_synonym ('m, 'd) versions = "(string \<times> ('m, 'd) entry) list"

type_synonym ('m, 'd) models = "(string \<times> ('m, 'd) versions) list"

text \<open>
  The state a \<^verbatim>\<open>ModelRegistry\<close> works on: \<open>registry\<close> is
  \<^verbatim>\<open>self.registry["models"]\<close>, \<open>registry_file\<close> is the document last written to
  \<^verbatim>\<open>registry.json\<close> (\<open>None\<close> while the file does not exist), and \<open>disk\<close> maps
  every other existing path to the bytes stored under it.
\<close>

record ('m, 'd, 'b) store =
  registry :: "('m, 'd) models"
  registry_file :: "('m, 'd) models option"
  disk :: "string \<Rightarrow> 'b option"

definition path_exists :: "('m, 'd, 'b) store \<Rightarrow> string \<Rightarrow> bool" where
  "path_exists s p = (disk s p \<noteq> None)"

text \<open>
  Python's \<^verbatim>\<open>max(iterable, key=...)\<close>: the running maximum is replaced only by
  an item whose key is strictly greater, so the first of several maximal items wins.
\<close>

fun max_by :: "('a \<Rightarrow> 'k::linorder) \<Rightarrow> 'a \<Rightarrow> 'a list \<Rightarrow> 'a" where
  "max_by key best [] = best"
| "max_by key best (x # xs) = max_by key (if key best < key x then x else best) xs"

definition registered_key :: "string \<times> ('m, 'd) entry \<Rightarrow> string" where
  "registered_key x = (case registered_at (snd x) of None \<Rightarrow> '''' | Some t \<Rightarrow> t)"

text \<open>
  The \<^verbatim>\<open>version == "latest"\<close> branch of \<^verbatim>\<open>get_model_path\<close>; it is reached
  only with a non-empty \<^verbatim>\<open>versions\<close>. The argument \<^verbatim>\<open>version\<close> defaults to
  \<^verbatim>\<open>"latest"\<close>; here it is always given. The \<^verbatim>\<open>Path\<close> returned is the
  stored string, and \<open>None\<close> is Python's \<^verbatim>\<open>None\<close>.
\<close>

definition latest_version :: "('m, 'd) versions \<Rightarrow> string" where
  "latest_version vs = fst (max_by registered_key (hd vs) (tl vs))"

definition resolve_version :: "('m, 'd) versions \<Rightarrow> string \<Rightarrow> string" where
  "resolve_version vs ver = (if ver = ''latest'' then latest_version vs else ver)"

definition get_model_path :: "('m, 'd, 'b) store \<Rightarrow> string \<Rightarrow> string \<Rightarrow> string option" where
  "get_model_path s name ver =
     (case map_of (registry s) name of
        None \<Rightarrow> None
      | Some vs \<Rightarrow>
          if vs = [] then None
          else
            (case map_of vs (resolve_version vs ver) of
               None \<Rightarrow> None
             | Some e \<Rightarrow> if path_exists s (path e) then Some (path e) else None))"

text \<open>
  \<^verbatim>\<open>delete_model\<close> returns its boolean together with the state it leaves. The
  entry is changed in place and \<^verbatim>\<open>_save_registry\<close> rewrites the whole document;
  nothing else on disk is touched.
\<close>

definition delete_model ::
  "('m, 'd, 'b) store \<Rightarrow> string \<Rightarrow> string \<Rightarrow> bool \<times> ('m, 'd, 'b) store" where
  "delete_model s name ver =
     (case map_of (registry s) name of
        None \<Rightarrow> (False, s)
      | Some vs \<Rightarrow>
          (case map_of vs ver of
             None \<Rightarrow> (False, s)
           | Some e \<Rightarrow>
               let reg' = AList.update name
                            (AList.update ver (e\<lparr>status := ''deleted''\<rparr>) vs) (registry s)
               in (True, s\<lparr>registry := reg', registry_file := Some reg'\<rparr>)))"

section \<open>src/pipelines/inference_pipeline.py\<close>

text \<open>
  A \<^verbatim>\<open>pandas.DataFrame\<close> is a list of column labels and a list of rows, each
  row holding one cell per label; its \<^verbatim>\<open>.values\<close> are the rows. A 2-D
  \<^verbatim>\<open>numpy.ndarray\<close> is its list of rows.
\<close>

record 'a frame =
  columns :: "string list"
  rows :: "'a list list"

text \<open>
  The four shapes \<^verbatim>\<open>prepare_input\<close> accepts. A cell is \<open>Some v\<close>, or
  \<open>None\<close> for the missing value pandas fills in where a record lacks a key.
\<close>

datatype 'v input =
    Dict "(string \<times> 'v) list"
  | Records "(string \<times> 'v) list list"
  | Ndarray "'v option list list"
  | DataFrame "'v option frame"

text \<open>
  \<^verbatim>\<open>pd.DataFrame(list_of_dicts)\<close>: the columns are the keys of all records in
  order of first appearance, and a record without a key gets a missing cell.
\<close>

definition record_columns :: "(string \<times> 'v) list list \<Rightarrow> string list" where
  "record_columns ds = rev (remdups (rev (concat (map (map fst) ds))))"

definition DataFrame_of_records :: "(string \<times> 'v) list list \<Rightarrow> 'v option frame" where
  "DataFrame_of_records ds =
     (let cs = record_columns ds
      in \<lparr>columns = cs, rows = map (\<lambda>d. map (map_of d) cs) ds\<rparr>)"

text \<open>
  \<^verbatim>\<open>data[feature_names]\<close> with a list of labels: the columns carrying each
  label, in the order of the list; a label that no column carries raises
  \<^verbatim>\<open>KeyError\<close>.
\<close>

definition cells_of :: "string list \<Rightarrow> 'a list \<Rightarrow> string \<Rightarrow> 'a list" where
  "cells_of cs r f = map snd (filter (\<lambda>cv. fst cv = f) (zip cs r))"

definition getitem_columns :: "'a frame \<Rightarrow> string list \<Rightarrow> error + 'a frame" where
  "getitem_columns df fs =
     (if \<exists>f \<in> set fs. f \<notin> set (columns df) then Inl (KeyError ''not in index'')
      else Inr \<lparr>columns = concat (map (\<lambda>f. filter (\<lambda>c. c = f) (columns df)) fs),
                rows = map (\<lambda>r. concat (map (cells_of (columns df) r) fs)) (rows df)\<rparr>)"

text \<open>
  The part of \<^verbatim>\<open>prepare_input\<close> after the conversion to a frame. The
  \<^verbatim>\<open>ValueError\<close> whose message is \<^verbatim>\<open>Missing required features:\<close> followed
  by the list is the error \<open>MissingFeatures\<close> carrying that list.
\<close>

definition select_features :: "string list \<Rightarrow> 'a frame \<Rightarrow> error + 'a list list" where
  "select_features feature_names data =
     (let missing_features = filter (\<lambda>f. f \<notin> set (columns data)) feature_names
      in if missing_features \<noteq> [] then Inl (MissingFeatures missing_features)
         else (case getitem_columns data feature_names of
                 Inl e \<Rightarrow> Inl e
               | Inr X \<Rightarrow> Inr (rows X)))"

text \<open>
  \<^verbatim>\<open>prepare_input\<close>; the first argument is what
  \<^verbatim>\<open>self.feature_builder.get_feature_names()\<close> returns.
\<close>

fun prepare_input :: "string list \<Rightarrow> 'v input \<Rightarrow> error + 'v option list list" where
  "prepare_input feature_names (Dict d) =
     select_features feature_names (DataFrame_of_records [d])"
| "prepare_input feature_names (Records ds) =
     select_features feature_names (DataFrame_of_records ds)"
| "prepare_input feature_names (Ndarray a) = Inr a"
| "prepare_input feature_names (DataFrame df) = select_features feature_names df"

section \<open>src/models/base_model.py and src/models/predict.py\<close>

text \<open>
  A \<^verbatim>\<open>BaseModel\<close> object: its name, parameters, the wrapped estimator
  (\<open>None\<close> until built), the trained flag and, for a
  \<^verbatim>\<open>HybridEnsembleModel\<close>, its base models (empty for the other classes).
\<close>

datatype ('p, 'h) base_model =
  BaseModel (model_name: string) (params: 'p) (model: "'h option") (is_trained: bool)
    (base_models: "('p, 'h) base_model list")

text \<open>
  The estimators of scikit-learn and mlxtend are outside the repository. What they
  compute is a parameter: \<open>predict_ext\<close> and \<open>predict_proba_ext\<close> are the
  estimator's methods (\<open>predict_proba_ext h = None\<close> when the estimator has no
  \<^verbatim>\<open>predict_proba\<close> attribute), each returning an array or raising.
\<close>

record ('h, 'c, 'l) estimators =
  predict_ext :: "'h \<Rightarrow> 'c list list \<Rightarrow> error + 'l list"
  predict_proba_ext :: "'h \<Rightarrow> ('c list list \<Rightarrow> error + real list list) option"

definition BaseModel_predict ::
  "('h, 'c, 'l) estimators \<Rightarrow> ('p, 'h) base_model \<Rightarrow> 'c list list \<Rightarrow> error + 'l list" where
  "BaseModel_predict lib m X =
     (if \<not> is_trained m
      then Inl (ValueError ''Model must be trained before making predictions'')
      else (case model m of
              None \<Rightarrow> Inl (AttributeError ''predict'')
            | Some h \<Rightarrow> predict_ext lib h X))"

definition BaseModel_predict_proba ::
  "('h, 'c, 'l) estimators \<Rightarrow> ('p, 'h) base_model \<Rightarrow> 'c list list \<Rightarrow> error + real list list"
  where
  "BaseModel_predict_proba lib m X =
     (if \<not> is_trained m
      then Inl (ValueError ''Model must be trained before making predictions'')
      else (case model m of
              None \<Rightarrow> Inl (NotImplementedError ''predict_proba'')
            | Some h \<Rightarrow>
                (case predict_proba_ext lib h of
                   None \<Rightarrow> Inl (NotImplementedError ''predict_proba'')
                 | Some proba \<Rightarrow> proba X)))"

text \<open>The argument \<^verbatim>\<open>X\<close> of the predictor: an array or a frame.\<close>

datatype 'c features = Values "'c list list" | Frame "'c frame"

fun values_of :: "'c features \<Rightarrow> 'c list list" where
  "values_of (Values a) = a"
| "values_of (Frame df) = rows df"

text \<open>
  \<^verbatim>\<open>ModelPredictor.predict\<close> and \<^verbatim>\<open>predict_proba\<close>; the second argument
  is \<^verbatim>\<open>self.model\<close>.
\<close>

definition predict ::
  "('h, 'c, 'l) estimators \<Rightarrow> ('p, 'h) base_model option \<Rightarrow> 'c features \<Rightarrow> error + 'l list"
  where
  "predict lib self_model X =
     (case self_model of
        None \<Rightarrow> Inl (ValueError ''No model loaded. Call load_model() first.'')
      | Some m \<Rightarrow> BaseModel_predict lib m (values_of X))"

definition predict_proba ::
  "('h, 'c, 'l) estimators \<Rightarrow> ('p, 'h) base_model option \<Rightarrow> 'c features
     \<Rightarrow> error + real list list" where
  "predict_proba lib self_model X =
     (case self_model of
        None \<Rightarrow> Inl (ValueError ''No model loaded. Call load_model() first.'')
      | Some m \<Rightarrow> BaseModel_predict_proba lib m (values_of X))"





text \<open>
  \<^verbatim>\<open>range(0, n_samples, batch_size)\<close>: a zero step raises, a negative step
  gives no index, a positive step gives \<open>0, b, 2b, \<dots>\<close> below \<open>n_samples\<close>.
\<close>

definition py_range0 :: "nat \<Rightarrow> int \<Rightarrow> error + nat list" where
  "py_range0 n step =
     (if step = 0 then Inl (ValueError ''range() arg 3 must not be zero'')
      else if step < 0 then Inr []
      else Inr (map (\<lambda>k. k * nat step) [0 ..< (n + nat step - 1) div nat step]))"

text \<open>The body of the loop of \<^verbatim>\<open>batch_predict\<close>, for the indices still to visit.\<close>

fun predict_batches ::
  "('h, 'c, 'l) estimators \<Rightarrow> ('p, 'h) base_model option \<Rightarrow> 'c list list \<Rightarrow> nat
     \<Rightarrow> nat list \<Rightarrow> error + 'l list list" where
  "predict_batches lib self_model X b [] = Inr []"
| "predict_batches lib self_model X b (i # is) =
     (case predict lib self_model (Values (take b (drop i X))) of
        Inl e \<Rightarrow> Inl e
      | Inr batch_pred \<Rightarrow>
          (case predict_batches lib self_model X b is of
             Inl e \<Rightarrow> Inl e
           | Inr ps \<Rightarrow> Inr (batch_pred # ps)))"

definition np_concatenate :: "'l list list \<Rightarrow> error + 'l list" where
  "np_concatenate ps =
     (if ps = [] then Inl (ValueError ''need at least one array to concatenate'')
      else Inr (concat ps))"

definition batch_predict ::
  "('h, 'c, 'l) estimators \<Rightarrow> ('p, 'h) base_model option \<Rightarrow> 'c features \<Rightarrow> int
     \<Rightarrow> error + 'l list" where
  "batch_predict lib self_model X batch_size =
     (let A = values_of X; n_samples = length A
      in case py_range0 n_samples batch_size of
           Inl e \<Rightarrow> Inl e
         | Inr idx \<Rightarrow>
             (case predict_batches lib self_model A (nat batch_size) idx of
                Inl e \<Rightarrow> Inl e
              | Inr ps \<Rightarrow> np_concatenate ps))"

section \<open>src/models/hybrid_ensemble.py and src/models/train.py\<close>

text \<open>
  What training needs from outside the repository, as parameters: the configuration
  document (\<open>config_models\<close> is \<^verbatim>\<open>get_config("model_config", "hybrid_ensemble")\<close>,
  \<open>None\<close> when that section is absent, and inside it the value under
  \<^verbatim>\<open>"models"\<close>, \<open>None\<close> when the key is absent; \<open>config_params name\<close> is the
  configured parameter dictionary of a model class, empty when there is none), the
  constructors of the estimators (\<open>build_ext\<close> for a scikit-learn class,
  \<open>vote_ext\<close> for \<^verbatim>\<open>EnsembleVoteClassifier(clfs=..., **params)\<close>) and the
  estimator's \<^verbatim>\<open>fit\<close>, which returns the fitted estimator or raises. The
  training set \<^verbatim>\<open>(X_train, y_train)\<close> is one opaque value.
\<close>

record ('p, 'h, 'd) training_lib =
  config_models :: "string list option option"
  config_params :: "string \<Rightarrow> 'p"
  build_ext :: "string \<Rightarrow> 'p \<Rightarrow> error + 'h"
  vote_ext :: "'h option list \<Rightarrow> 'p \<Rightarrow> error + 'h"
  fit_ext :: "'h \<Rightarrow> 'd \<Rightarrow> error + 'h"

text \<open>
  Calls of a model's \<^verbatim>\<open>fit\<close> method are recorded in a trace: \<open>FitBase name\<close>
  for the \<^verbatim>\<open>fit\<close> of one of the three base classes, \<open>FitEnsemble\<close> for
  \<^verbatim>\<open>HybridEnsembleModel.fit\<close> reaching the estimator's \<^verbatim>\<open>fit\<close>.
\<close>

datatype event = FitBase string | FitEnsemble

text \<open>
  The state of a \<^verbatim>\<open>ModelTrainer\<close>: the cache \<^verbatim>\<open>self.trained_models\<close> and
  the trace of the run.
\<close>

record ('p, 'h) trainer =
  trained_models :: "(string \<times> ('p, 'h) base_model) list"
  fit_calls :: "event list"

definition MODEL_REGISTRY :: "string list" where
  "MODEL_REGISTRY =
     [''logistic_regression'', ''gradient_boosting'', ''neural_network'', ''hybrid_ensemble'']"

definition default_base_models :: "string list" where
  "default_base_models = [''logistic_regression'', ''gradient_boosting'', ''neural_network'']"

text \<open>
  The first lines of \<^verbatim>\<open>_train_ensemble\<close>: the names under \<^verbatim>\<open>"models"\<close>
  (\<^verbatim>\<open>[]\<close> when the key is absent), replaced by the three default base models
  when that list is empty.
\<close>

definition base_model_names :: "string list option \<Rightarrow> string list" where
  "base_model_names cm =
     (let configured = (case cm of None \<Rightarrow> [] | Some ns \<Rightarrow> ns)
      in if configured = [] then default_base_models else configured)"

text \<open>
  The constructor of a base class (\<^verbatim>\<open>LogisticRegressionModel\<close>,
  \<^verbatim>\<open>GradientBoostingModel\<close>, \<^verbatim>\<open>NeuralNetworkModel\<close>): the parameters
  default to the configured ones and the estimator is built at once.
\<close>

definition new_model ::
  "('p, 'h, 'd) training_lib \<Rightarrow> string \<Rightarrow> 'p option \<Rightarrow> error + ('p, 'h) base_model" where
  "new_model lib name ps =
     (let p = (case ps of None \<Rightarrow> config_params lib name | Some p \<Rightarrow> p)
      in case build_ext lib name p of
           Inl e \<Rightarrow> Inl e
         | Inr h \<Rightarrow> Inr (BaseModel name p (Some h) False []))"

text \<open>The \<^verbatim>\<open>fit\<close> of a base class, threading the trace.\<close>

definition base_fit ::
  "('p, 'h, 'd) training_lib \<Rightarrow> ('p, 'h) base_model \<Rightarrow> 'd \<Rightarrow> event list
     \<Rightarrow> (error + ('p, 'h) base_model) \<times> event list" where
  "base_fit lib m d calls =
     (case model m of
        None \<Rightarrow> (Inl (AttributeError ''fit''), calls)
      | Some h \<Rightarrow>
          (case fit_ext lib h d of
             Inl e \<Rightarrow> (Inl e, calls @ [FitBase (model_name m)])
           | Inr h' \<Rightarrow>
               (Inr (BaseModel (model_name m) (params m) (Some h') True (base_models m)),
                calls @ [FitBase (model_name m)])))"

text \<open>\<^verbatim>\<open>HybridEnsembleModel.__init__\<close>, \<^verbatim>\<open>build\<close> and \<^verbatim>\<open>fit\<close>.\<close>

definition new_ensemble ::
  "('p, 'h, 'd) training_lib \<Rightarrow> ('p, 'h) base_model list \<Rightarrow> 'p option \<Rightarrow> ('p, 'h) base_model"
  where
  "new_ensemble lib bms ps =
     BaseModel ''hybrid_ensemble''
       (case ps of None \<Rightarrow> config_params lib ''hybrid_ensemble'' | Some p \<Rightarrow> p)
       None False bms"

definition build :: "('p, 'h, 'd) training_lib \<Rightarrow> ('p, 'h) base_model \<Rightarrow> error + 'h" where
  "build lib self =
     (if base_models self = []
      then Inl (ValueError ''Base models must be set before building ensemble'')
      else vote_ext lib (map model (base_models self)) (params self))"

definition fit ::
  "('p, 'h, 'd) training_lib \<Rightarrow> ('p, 'h) base_model \<Rightarrow> 'd \<Rightarrow> event list
     \<Rightarrow> (error + ('p, 'h) base_model) \<times> event list" where
  "fit lib self d calls =
     (if base_models self = []
      then (Inl (ValueError ''Base models must be set and trained before fitting ensemble''),
            calls)
      else
        (case (case model self of None \<Rightarrow> build lib self | Some h \<Rightarrow> Inr h) of
           Inl e \<Rightarrow> (Inl e, calls)
         | Inr h \<Rightarrow>
             (case fit_ext lib h d of
                Inl e \<Rightarrow> (Inl e, calls @ [FitEnsemble])
              | Inr h' \<Rightarrow>
                  (Inr (BaseModel (model_name self) (params self) (Some h') True
                          (base_models self)),
                   calls @ [FitEnsemble]))))"

text \<open>
  \<^verbatim>\<open>train_model\<close> and \<^verbatim>\<open>_train_ensemble\<close> call each other, and
  \<open>train_base_models\<close> is the loop of \<^verbatim>\<open>_train_ensemble\<close> over the names
  still to resolve, with the list \<^verbatim>\<open>base_models\<close> built so far. The first
  argument is the number of call frames the interpreter still allows: a call made
  with none left raises \<^verbatim>\<open>RecursionError\<close>, which is how the source ends when
  \<^verbatim>\<open>"hybrid_ensemble"\<close> is itself listed as an untrained base model.
\<close>

fun train_model ::
  "nat \<Rightarrow> ('p, 'h, 'd) training_lib \<Rightarrow> 'd \<Rightarrow> string \<Rightarrow> 'p option \<Rightarrow> ('p, 'h) trainer
     \<Rightarrow> (error + ('p, 'h) base_model) \<times> ('p, 'h) trainer"
and train_ensemble ::
  "nat \<Rightarrow> ('p, 'h, 'd) training_lib \<Rightarrow> 'd \<Rightarrow> 'p option \<Rightarrow> ('p, 'h) trainer
     \<Rightarrow> (error + ('p, 'h) base_model) \<times> ('p, 'h) trainer"
and train_base_models ::
  "nat \<Rightarrow> ('p, 'h, 'd) training_lib \<Rightarrow> 'd \<Rightarrow> string list \<Rightarrow> ('p, 'h) base_model list
     \<Rightarrow> ('p, 'h) trainer \<Rightarrow> (error + ('p, 'h) base_model list) \<times> ('p, 'h) trainer"
where
  "train_model 0 lib d name ps s = (Inl RecursionError, s)"
| "train_model (Suc k) lib d name ps s =
     (if name \<notin> set MODEL_REGISTRY then (Inl (ValueError ''Unknown model''), s)
      else if name = ''hybrid_ensemble'' then train_ensemble k lib d ps s
      else
        (case new_model lib name ps of
           Inl e \<Rightarrow> (Inl e, s)
         | Inr m \<Rightarrow>
             (case base_fit lib m d (fit_calls s) of
                (Inl e, calls) \<Rightarrow> (Inl e, s\<lparr>fit_calls := calls\<rparr>)
              | (Inr m', calls) \<Rightarrow>
                  (Inr m',
                   s\<lparr>trained_models := AList.update name m' (trained_models s),
                     fit_calls := calls\<rparr>))))"
| "train_ensemble 0 lib d ps s = (Inl RecursionError, s)"
| "train_ensemble (Suc k) lib d ps s =
     (case config_models lib of
        None \<Rightarrow> (Inl (AttributeError ''get''), s)
      | Some cm \<Rightarrow>
          (case train_base_models k lib d (base_model_names cm) [] s of
             (Inl e, s') \<Rightarrow> (Inl e, s')
           | (Inr bms, s') \<Rightarrow>
               (case fit lib (new_ensemble lib bms ps) d (fit_calls s') of
                  (Inl e, calls) \<Rightarrow> (Inl e, s'\<lparr>fit_calls := calls\<rparr>)
                | (Inr ensemble, calls) \<Rightarrow>
                    (Inr ensemble,
                     s'\<lparr>trained_models :=
                          AList.update ''hybrid_ensemble'' ensemble (trained_models s'),
                        fit_calls := calls\<rparr>))))"
| "train_base_models k lib d [] bms s = (Inr bms, s)"
| "train_base_models k lib d (name # names) bms s =
     (case map_of (trained_models s) name of
        Some m \<Rightarrow> train_base_models k lib d names (bms @ [m]) s
      | None \<Rightarrow>
          (case train_model k lib d name None s of
             (Inl e, s') \<Rightarrow> (Inl e, s')
           | (Inr m, s') \<Rightarrow> train_base_models k lib d names (bms @ [m]) s'))"

section \<open>src/monitoring/data_drift.py\<close>















section \<open>Reference definitions for comparison\<close>

text \<open>
  The contiguous chunks of size \<open>b\<close> of a list of rows, in their order; the last
  one may be shorter. This is what the description of \<^verbatim>\<open>batch_predict\<close> calls
  the chunks, against which the loop over \<^verbatim>\<open>range(0, n_samples, batch_size)\<close>
  is compared.
\<close>

function chunks :: "nat \<Rightarrow> 'a list \<Rightarrow> 'a list list" where
  "chunks b xs = (if b = 0 \<or> xs = [] then [] else take b xs # chunks b (drop b xs))"
  by pat_completeness auto
termination
  by (relation "measure (\<lambda>(b, xs). length xs)") auto

declare chunks.simps [simp del]

text \<open>
  The names of a list that are not among the keys \<open>seen\<close>, each once, in the
  order of their first occurrence: the base models that a run has to train fresh when
  \<open>seen\<close> are the names already in its cache.
\<close>

fun uncached :: "string list \<Rightarrow> string list \<Rightarrow> string list" where
  "uncached seen [] = []"
| "uncached seen (n # ns) =
     (if n \<in> set seen then uncached seen ns else n # uncached (n # seen) ns)"

text \<open>
  A trainer state \<open>s'\<close> continues \<open>s\<close> when its trace extends that of \<open>s\<close>
  by events among which no base class is fitted for a name cached in \<open>s\<close>, and
  every name cached in \<open>s\<close> is still cached.
\<close>

definition continues :: "('p, 'h) trainer \<Rightarrow> ('p, 'h) trainer \<Rightarrow> bool" where
  "continues s s' \<longleftrightarrow>
     (\<exists>evs. fit_calls s' = fit_calls s @ evs
        \<and> (\<forall>n. FitBase n \<in> set evs \<longrightarrow> map_of (trained_models s) n = None))
     \<and> (\<forall>n. map_of (trained_models s) n \<noteq> None \<longrightarrow> map_of (trained_models s') n \<noteq> None)"

section \<open>Concrete inputs\<close>

text \<open>
  A registry as two calls of \<^verbatim>\<open>register_model\<close> for \<^verbatim>\<open>"m"\<close> leave it
  (version 1.0, then 1.1), with a model \<^verbatim>\<open>"old"\<close> whose directory has been
  removed from disk and a name without versions.
\<close>

definition entry_m_1_0 :: "(unit, unit) entry" where
  "entry_m_1_0 =
     \<lparr>model_id = ''m_v1.0'', entry_model_name = ''m'', version = ''1.0'',
      path = ''models/m/1.0'', registered_at = Some ''2024-01-01T10:00:00.000000'',
      metrics = (), metadata = (), status = ''active'', stage = None\<rparr>"

definition entry_m_1_1 :: "(unit, unit) entry" where
  "entry_m_1_1 =
     \<lparr>model_id = ''m_v1.1'', entry_model_name = ''m'', version = ''1.1'',
      path = ''models/m/1.1'', registered_at = Some ''2024-01-02T09:30:00.000000'',
      metrics = (), metadata = (), status = ''active'', stage = None\<rparr>"

definition entry_old_1_0 :: "(unit, unit) entry" where
  "entry_old_1_0 =
     \<lparr>model_id = ''old_v1.0'', entry_model_name = ''old'', version = ''1.0'',
      path = ''models/old/1.0'', registered_at = Some ''2023-06-01T08:00:00.000000'',
      metrics = (), metadata = (), status = ''active'', stage = None\<rparr>"

definition entry_m_1_2 :: "(unit, unit) entry" where
  "entry_m_1_2 =
     \<lparr>model_id = ''m_v1.2'', entry_model_name = ''m'', version = ''1.2'',
      path = ''models/m/1.2'', registered_at = Some ''2024-01-03T08:15:00.000000'',
      metrics = (), metadata = (), status = ''active'', stage = None\<rparr>"

definition example_models :: "(unit, unit) models" where
  "example_models =
     [(''m'', [(''1.0'', entry_m_1_0), (''1.1'', entry_m_1_1)]),
      (''old'', [(''1.0'', entry_old_1_0)]),
      (''none'', [])]"

definition example_store :: "(unit, unit, nat) store" where
  "example_store =
     \<lparr>registry = example_models, registry_file = Some example_models,
      disk = map_of [(''models/m/1.0'', 10), (''models/m/1.1'', 11)]\<rparr>"

text \<open>The registry after a third call of \<^verbatim>\<open>register_model\<close> for \<^verbatim>\<open>"m"\<close>.\<close>

definition three_versions :: "(unit, unit, nat) store" where
  "three_versions =
     \<lparr>registry =
        [(''m'', [(''1.0'', entry_m_1_0), (''1.1'', entry_m_1_1), (''1.2'', entry_m_1_2)])],
      registry_file =
        Some [(''m'', [(''1.0'', entry_m_1_0), (''1.1'', entry_m_1_1), (''1.2'', entry_m_1_2)])],
      disk = map_of [(''models/m/1.0'', 10), (''models/m/1.1'', 11), (''models/m/1.2'', 12)]\<rparr>"

text \<open>
  A loaded and trained model over an estimator that reads the probability of the
  positive class off the first feature of a row and predicts class 1 from one half on.
\<close>

definition example_estimators :: "(unit, real, int) estimators" where
  "example_estimators =
     \<lparr>predict_ext = (\<lambda>h X. Inr (map (\<lambda>r. if hd r \<ge> 1 / 2 then 1 else 0) X)),
      predict_proba_ext = (\<lambda>h. Some (\<lambda>X. Inr (map (\<lambda>r. [1 - hd r, hd r]) X)))\<rparr>"


definition example_model :: "(unit, unit) base_model" where
  "example_model = BaseModel ''logistic_regression'' () (Some ()) True []"

text \<open>
  A training library whose estimators are named by strings (fitting appends a star),
  with an empty list of base models configured, and a trainer that has trained nothing
  yet.
\<close>

definition example_training_lib :: "(unit, string, unit) training_lib" where
  "example_training_lib =
     \<lparr>config_models = Some (Some []),
      config_params = (\<lambda>name. ()),
      build_ext = (\<lambda>name p. Inr name),
      vote_ext = (\<lambda>clfs p. Inr ''vote''),
      fit_ext = (\<lambda>h d. Inr (h @ ''*''))\<rparr>"

definition empty_trainer :: "(unit, string) trainer" where
  "empty_trainer = \<lparr>trained_models = [], fit_calls = []\<rparr>"

definition cached_lr :: "(unit, string) base_model" where
  "cached_lr = BaseModel ''logistic_regression'' () (Some ''earlier fit'') True []"




text \<open>
  Estimators that count how often they have been fitted: \<open>Clf name k\<close> is a base
  estimator fitted \<open>k\<close> times, \<open>Vote cs\<close> a voting estimator over the estimators
  \<open>cs\<close>. Fitting a voting estimator fits each of its estimators once more, as a
  voting classifier that fits its base estimators does. The library configures two
  base models, and the trainer has \<^verbatim>\<open>logistic_regression\<close> in its cache, fitted
  once.
\<close>

datatype counted = Clf string nat | Vote "counted list"

fun refit :: "counted \<Rightarrow> counted" where
  "refit (Clf name k) = Clf name (Suc k)"
| "refit (Vote cs) = Vote (map refit cs)"

definition refitting_lib :: "(unit, counted, unit) training_lib" where
  "refitting_lib =
     \<lparr>config_models = Some (Some [''logistic_regression'', ''gradient_boosting'']),
      config_params = (\<lambda>name. ()),
      build_ext = (\<lambda>name p. Inr (Clf name 0)),
      vote_ext = (\<lambda>clfs p. Inr (Vote (concat (map (\<lambda>c. case c of None \<Rightarrow> [] | Some h \<Rightarrow> [h]) clfs)))),
      fit_ext = (\<lambda>h d. Inr (refit h))\<rparr>"

definition trained_lr :: "(unit, counted) base_model" where
  "trained_lr = BaseModel ''logistic_regression'' () (Some (Clf ''logistic_regression'' 1)) True []"

definition lr_cached :: "(unit, counted) trainer" where
  "lr_cached = \<lparr>trained_models = [(''logistic_regression'', trained_lr)], fit_calls = []\<rparr>"

section \<open>Properties of the registry\<close>

lemma max_by_mem: "max_by key best xs \<in> set (best # xs)"
  by (induction xs arbitrary: best) auto

lemma max_by_ge_best: "key best \<le> key (max_by key best xs)"
proof (induction xs arbitrary: best)
  case Nil
  show ?case by simp
next
  case (Cons x xs)
  have "key best \<le> key (if key best < key x then x else best)"
    by (simp add: less_imp_le)
  also have "\<dots> \<le> key (max_by key (if key best < key x then x else best) xs)"
    by (rule Cons.IH)
  finally show ?case by simp
qed

lemma max_by_ge: "y \<in> set (best # xs) \<Longrightarrow> key y \<le> key (max_by key best xs)"
proof (induction xs arbitrary: best)
  case Nil
  then show ?case by simp
next
  case (Cons x xs)
  let ?b = "if key best < key x then x else best"
  from Cons.prems consider "y = best" | "y = x" | "y \<in> set xs" by auto
  then show ?case
  proof cases
    case 1
    have "key best \<le> key ?b" by (simp add: less_imp_le)
    also have "\<dots> \<le> key (max_by key ?b xs)" by (rule max_by_ge_best)
    finally show ?thesis using 1 by simp
  next
    case 2
    have "key x \<le> key ?b" by (simp add: not_less)
    also have "\<dots> \<le> key (max_by key ?b xs)" by (rule max_by_ge_best)
    finally show ?thesis using 2 by simp
  next
    case 3
    then have "y \<in> set (?b # xs)" by simp
    then have "key y \<le> key (max_by key ?b xs)" by (rule Cons.IH)
    then show ?thesis by simp
  qed
qed

lemma max_by_rel:
  assumes "list_all2 (\<lambda>x y. fst x = fst y \<and> key x = key y) xs ys"
    and "fst b = fst b'" and "key b = key b'"
  shows "fst (max_by key b xs) = fst (max_by key b' ys)"
  using assms
proof (induction xs ys arbitrary: b b' rule: list_all2_induct)
  case Nil
  then show ?case by simp
next
  case (Cons x xs y ys)
  let ?c = "if key b < key x then x else b"
  let ?c' = "if key b' < key y then y else b'"
  have "fst ?c = fst ?c'" and "key ?c = key ?c'"
    using Cons.hyps(1) Cons.prems by auto
  then have "fst (max_by key ?c xs) = fst (max_by key ?c' ys)"
    by (rule Cons.IH)
  then show ?case by simp
qed

lemma update_status_rel:
  assumes "map_of vs ver = Some e"
  shows "list_all2 (\<lambda>x y. fst x = fst y \<and> registered_key x = registered_key y)
           vs (AList.update ver (e\<lparr>status := st\<rparr>) vs)"
  using assms
proof (induction vs)
  case Nil
  then show ?case by simp
next
  case (Cons p ps)
  show ?case
  proof (cases "fst p = ver")
    case True
    with Cons.prems have "snd p = e" by (cases p) simp
    with True show ?thesis
      by (simp add: registered_key_def list_all2_refl list.rel_refl)
  next
    case False
    with Cons.prems have "map_of ps ver = Some e" by (cases p) (simp split: if_splits)
    with Cons.IH False show ?thesis by simp
  qed
qed

lemma latest_version_update_status:
  assumes "map_of vs ver = Some e"
  shows "latest_version (AList.update ver (e\<lparr>status := st\<rparr>) vs) = latest_version vs"
proof -
  let ?vs' = "AList.update ver (e\<lparr>status := st\<rparr>) vs"
  have rel: "list_all2 (\<lambda>x y. fst x = fst y \<and> registered_key x = registered_key y) vs ?vs'"
    using assms by (rule update_status_rel)
  from assms obtain p ps where vs: "vs = p # ps" by (cases vs) auto
  from rel vs obtain q qs where vs': "?vs' = q # qs"
    and pq: "fst p = fst q" "registered_key p = registered_key q"
    and tl: "list_all2 (\<lambda>x y. fst x = fst y \<and> registered_key x = registered_key y) ps qs"
    by (auto simp: list_all2_Cons1)
  have "fst (max_by registered_key p ps) = fst (max_by registered_key q qs)"
    using tl pq by (rule max_by_rel)
  then show ?thesis
    unfolding latest_version_def vs' by (simp add: vs)
qed

lemma get_model_path_delete_model:
  "get_model_path (snd (delete_model s name ver)) n v = get_model_path s n v"
proof (cases "map_of (registry s) name")
  case None
  then show ?thesis by (simp add: delete_model_def)
next
  case (Some vs)
  show ?thesis
  proof (cases "map_of vs ver")
    case None
    with Some show ?thesis by (simp add: delete_model_def)
  next
    case (Some e)
    let ?vs' = "AList.update ver (e\<lparr>status := ''deleted''\<rparr>) vs"
    have ne: "vs \<noteq> []" using Some by auto
    have res: "resolve_version ?vs' v = resolve_version vs v"
      using Some by (simp add: resolve_version_def latest_version_update_status)
    show ?thesis
      using \<open>map_of (registry s) name = Some vs\<close> Some ne res
      by (auto simp: delete_model_def get_model_path_def Let_def path_exists_def
            update_conv' split: option.splits)
  qed
qed


lemma map_of_distinct_mem:
  "distinct (map fst vs) \<Longrightarrow> (v, e) \<in> set vs \<Longrightarrow> map_of vs v = Some e"
  by simp

lemma latest_version_mem:
  "vs \<noteq> [] \<Longrightarrow> max_by registered_key (hd vs) (tl vs) \<in> set vs"
  using max_by_mem [of registered_key "hd vs" "tl vs"] by (cases vs) auto

lemma latest_version_ge:
  "x \<in> set vs \<Longrightarrow> registered_key x \<le> registered_key (max_by registered_key (hd vs) (tl vs))"
  using max_by_ge [of x "hd vs" "tl vs" registered_key] by (cases vs) auto

lemma max_by_first:
  "\<exists>ys zs. b # xs = ys @ max_by key b xs # zs
     \<and> (\<forall>y \<in> set ys. key y < key (max_by key b xs))
     \<and> (\<forall>z \<in> set zs. key z \<le> key (max_by key b xs))"
proof (induction xs arbitrary: b)
  case Nil
  show ?case by (intro exI [of _ "[]"]) simp
next
  case (Cons x xs)
  show ?case
  proof (cases "key b < key x")
    case True
    define M where "M = max_by key x xs"
    have m: "max_by key b (x # xs) = M" using True by (simp add: M_def)
    from Cons.IH [of x] obtain ys zs where split: "x # xs = ys @ M # zs"
      and before: "\<forall>y \<in> set ys. key y < key M"
      and after: "\<forall>z \<in> set zs. key z \<le> key M"
      unfolding M_def by blast
    have "key x \<le> key M" unfolding M_def by (rule max_by_ge_best)
    with True have "key b < key M" by simp
    with before have "\<forall>y \<in> set (b # ys). key y < key M" by simp
    moreover from split have "b # x # xs = (b # ys) @ M # zs" by simp
    ultimately show ?thesis using after unfolding m by blast
  next
    case False
    define M where "M = max_by key b xs"
    have m: "max_by key b (x # xs) = M" using False by (simp add: M_def)
    from False have xb: "key x \<le> key b" by simp
    from Cons.IH [of b] obtain ys zs where split: "b # xs = ys @ M # zs"
      and before: "\<forall>y \<in> set ys. key y < key M"
      and after: "\<forall>z \<in> set zs. key z \<le> key M"
      unfolding M_def by blast
    show ?thesis
    proof (cases ys)
      case Nil
      with split have M: "M = b" and zs: "zs = xs" by simp_all
      have "b # x # xs = [] @ M # (x # zs)" using M zs by simp
      moreover have "\<forall>z \<in> set (x # zs). key z \<le> key M" using after xb M by simp
      moreover have "\<forall>y \<in> set ([] :: 'a list). key y < key M" by simp
      ultimately show ?thesis unfolding m by blast
    next
      case (Cons y ys')
      with split have y: "y = b" and rest: "xs = ys' @ M # zs" by simp_all
      from before Cons y have "key b < key M" by simp
      with xb have "key x < key M" by simp
      with before Cons y have "\<forall>y \<in> set (b # x # ys'). key y < key M" by simp
      moreover from rest have "b # x # xs = (b # x # ys') @ M # zs" by simp
      ultimately show ?thesis using after unfolding m by blast
    qed
  qed
qed

lemma latest_version_first:
  assumes "vs \<noteq> []"
  shows "\<exists>ys zs. vs = ys @ max_by registered_key (hd vs) (tl vs) # zs
     \<and> (\<forall>y \<in> set ys. registered_key y < registered_key (max_by registered_key (hd vs) (tl vs)))
     \<and> (\<forall>z \<in> set zs. registered_key z \<le> registered_key (max_by registered_key (hd vs) (tl vs)))"
  using max_by_first [of "hd vs" "tl vs" registered_key] assms by simp


text \<open>
  Claim C1, as stated, fails once a third, newer version is registered: the registry
  holds versions 1.0 and 1.1 with 1.0 registered before 1.1 and the path of 1.1 exists,
  yet \<^verbatim>\<open>"latest"\<close> resolves to version 1.2 and its path is returned.
\<close>

theorem latest_not_second_of_three:
  "map_of (registry three_versions) ''m''
     = Some [(''1.0'', entry_m_1_0), (''1.1'', entry_m_1_1), (''1.2'', entry_m_1_2)]
   \<and> registered_at entry_m_1_0 = Some ''2024-01-01T10:00:00.000000''
   \<and> registered_at entry_m_1_1 = Some ''2024-01-02T09:30:00.000000''
   \<and> ''2024-01-01T10:00:00.000000'' < ''2024-01-02T09:30:00.000000''
   \<and> path entry_m_1_1 = ''models/m/1.1''
   \<and> path_exists three_versions ''models/m/1.1''
   \<and> get_model_path three_versions ''m'' ''latest'' = Some ''models/m/1.2''"
  by (simp add: get_model_path_def resolve_version_def latest_version_def registered_key_def
      path_exists_def three_versions_def entry_m_1_0_def entry_m_1_1_def entry_m_1_2_def)

text \<open>
  Claim C1, amended. In a registry that holds for a name the versions \<open>v1\<close> and
  \<open>v2\<close> with \<open>v1\<close> registered before \<open>v2\<close> (string comparison of
  \<^verbatim>\<open>registered_at\<close>), the version \<^verbatim>\<open>"latest"\<close> resolves to an entry of the
  name whose \<^verbatim>\<open>registered_at\<close> is greatest among all entries of the name (the
  first such entry in the order of the index), never to \<open>v1\<close>, and
  \<^verbatim>\<open>get_model_path\<close> returns the stored path of that entry provided the path
  exists. When every further version of the name is older than
  \<open>v2\<close>, that entry is \<open>v2\<close> and the path returned is the stored path of
  \<open>v2\<close>.
\<close>

theorem latest_resolves_newest:
  assumes reg: "map_of (registry s) name = Some vs"
    and dist: "distinct (map fst vs)"
    and v1: "(v1, e1) \<in> set vs" and v2: "(v2, e2) \<in> set vs"
    and t1: "registered_at e1 = Some t1" and t2: "registered_at e2 = Some t2"
    and lt: "t1 < t2"
  shows "resolve_version vs ''latest'' \<noteq> v1
    \<and> (\<exists>e ys zs. vs = ys @ (resolve_version vs ''latest'', e) # zs
          \<and> (\<forall>y \<in> set ys. registered_key y < registered_key (resolve_version vs ''latest'', e))
          \<and> (\<forall>z \<in> set zs. registered_key z \<le> registered_key (resolve_version vs ''latest'', e))
          \<and> get_model_path s name ''latest''
              = (if path_exists s (path e) then Some (path e) else None))
    \<and> ((\<forall>(v, e) \<in> set vs. v = v1 \<or> v = v2 \<or> registered_key (v, e) < t2) \<longrightarrow>
          resolve_version vs ''latest'' = v2
        \<and> (\<forall>x \<in> set vs. registered_key x \<le> registered_key (v2, e2))
        \<and> get_model_path s name ''latest''
            = (if path_exists s (path e2) then Some (path e2) else None))"
proof -
  let ?m = "max_by registered_key (hd vs) (tl vs)"
  have ne: "vs \<noteq> []" using v2 by auto
  have k2: "registered_key (v2, e2) = t2" by (simp add: registered_key_def t2)
  have k1: "registered_key (v1, e1) = t1" by (simp add: registered_key_def t1)
  have mem: "?m \<in> set vs" using ne by (rule latest_version_mem)
  have res: "resolve_version vs ''latest'' = fst ?m"
    by (simp add: resolve_version_def latest_version_def)
  have top: "\<forall>x \<in> set vs. registered_key x \<le> registered_key ?m"
    using latest_version_ge by blast
  have look: "map_of vs (fst ?m) = Some (snd ?m)" using dist mem by simp
  have path: "get_model_path s name ''latest''
        = (if path_exists s (path (snd ?m)) then Some (path (snd ?m)) else None)"
    using reg ne res look by (simp add: get_model_path_def)
  have not_v1: "fst ?m \<noteq> v1"
  proof
    assume "fst ?m = v1"
    with mem dist v1 have "?m = (v1, e1)" by (metis eq_key_imp_eq_value prod.collapse)
    with top v2 have "registered_key (v2, e2) \<le> registered_key (v1, e1)" by metis
    with k1 k2 lt show False by simp
  qed
  from latest_version_first [OF ne] obtain ys zs where split: "vs = ys @ ?m # zs"
    and before: "\<forall>y \<in> set ys. registered_key y < registered_key ?m"
    and after: "\<forall>z \<in> set zs. registered_key z \<le> registered_key ?m"
    by blast
  have pair: "(resolve_version vs ''latest'', snd ?m) = ?m" by (simp add: res)
  have general: "\<exists>e ys zs. vs = ys @ (resolve_version vs ''latest'', e) # zs
          \<and> (\<forall>y \<in> set ys. registered_key y < registered_key (resolve_version vs ''latest'', e))
          \<and> (\<forall>z \<in> set zs. registered_key z \<le> registered_key (resolve_version vs ''latest'', e))
          \<and> get_model_path s name ''latest''
              = (if path_exists s (path e) then Some (path e) else None)"
    using split before after path
    by (intro exI [of _ "snd ?m"] exI [of _ ys] exI [of _ zs]) (simp only: pair simp_thms)
  have special: "resolve_version vs ''latest'' = v2
        \<and> (\<forall>x \<in> set vs. registered_key x \<le> registered_key (v2, e2))
        \<and> get_model_path s name ''latest''
            = (if path_exists s (path e2) then Some (path e2) else None)"
    if others: "\<forall>(v, e) \<in> set vs. v = v1 \<or> v = v2 \<or> registered_key (v, e) < t2"
  proof -
    have older: "registered_key x < t2" if "x \<in> set vs" "fst x \<noteq> v2" for x
    proof (cases "fst x = v1")
      case True
      with that(1) dist v1 have "x = (v1, e1)"
        by (metis eq_key_imp_eq_value prod.collapse)
      with k1 lt show ?thesis by simp
    next
      case False
      with that others show ?thesis by (cases x) auto
    qed
    have "t2 \<le> registered_key ?m" using latest_version_ge [OF v2] k2 by simp
    with older [OF mem] have fst_m: "fst ?m = v2" by (cases "fst ?m = v2") auto
    with mem dist v2 have m: "?m = (v2, e2)" by (metis eq_key_imp_eq_value prod.collapse)
    from fst_m res have r: "resolve_version vs ''latest'' = v2" by simp
    from top m have t: "\<forall>x \<in> set vs. registered_key x \<le> registered_key (v2, e2)" by simp
    from path m have p: "get_model_path s name ''latest''
            = (if path_exists s (path e2) then Some (path e2) else None)" by simp
    from r t p show ?thesis by blast
  qed
  from not_v1 res general special show ?thesis by simp
qed

text \<open>
  Claim C9. For a registered (name, version), \<^verbatim>\<open>delete_model\<close> returns true and
  sets the status of that entry to \<^verbatim>\<open>deleted\<close>: the other fields of the entry,
  every other version and every other name, the order of the keys and the bytes on
  disk are unchanged, and \<^verbatim>\<open>get_model_path(name, "latest")\<close> gives the same
  answer before and after. For an unregistered (name, version) it returns false and
  leaves the state as it was.
\<close>

theorem delete_model_soft:
  "(map_of (registry s) name = Some vs \<and> map_of vs ver = Some e \<longrightarrow>
      fst (delete_model s name ver) = True
      \<and> (\<exists>vs'. map_of (registry (snd (delete_model s name ver))) name = Some vs'
            \<and> map_of vs' ver = Some (e\<lparr>status := ''deleted''\<rparr>)
            \<and> (\<forall>v. v \<noteq> ver \<longrightarrow> map_of vs' v = map_of vs v)
            \<and> map fst vs' = map fst vs)
      \<and> (\<forall>n. n \<noteq> name \<longrightarrow>
            map_of (registry (snd (delete_model s name ver))) n = map_of (registry s) n)
      \<and> map fst (registry (snd (delete_model s name ver))) = map fst (registry s)
      \<and> disk (snd (delete_model s name ver)) = disk s
      \<and> get_model_path (snd (delete_model s name ver)) name ''latest''
          = get_model_path s name ''latest'')
   \<and> (map_of (registry s) name = None
        \<or> (\<exists>ws. map_of (registry s) name = Some ws \<and> map_of ws ver = None)
      \<longrightarrow> delete_model s name ver = (False, s))"
proof (intro conjI impI)
  assume "map_of (registry s) name = None
        \<or> (\<exists>ws. map_of (registry s) name = Some ws \<and> map_of ws ver = None)"
  then show "delete_model s name ver = (False, s)"
    by (auto simp: delete_model_def)
next
  assume a: "map_of (registry s) name = Some vs \<and> map_of vs ver = Some e"
  let ?vs' = "AList.update ver (e\<lparr>status := ''deleted''\<rparr>) vs"
  let ?reg' = "AList.update name ?vs' (registry s)"
  have d: "delete_model s name ver = (True, s\<lparr>registry := ?reg', registry_file := Some ?reg'\<rparr>)"
    using a by (simp add: delete_model_def Let_def)
  have kv: "ver \<in> set (map fst vs)" using a by (metis map_of_eq_None_iff option.distinct(1) set_map)
  have kn: "name \<in> set (map fst (registry s))"
    using a by (metis map_of_eq_None_iff option.distinct(1) set_map)
  show "fst (delete_model s name ver) = True" by (simp add: d)
  show "\<exists>vs'. map_of (registry (snd (delete_model s name ver))) name = Some vs'
            \<and> map_of vs' ver = Some (e\<lparr>status := ''deleted''\<rparr>)
            \<and> (\<forall>v. v \<noteq> ver \<longrightarrow> map_of vs' v = map_of vs v)
            \<and> map fst vs' = map fst vs"
    using kv by (intro exI [of _ ?vs']) (simp add: d update_conv' update_keys)
  show "\<forall>n. n \<noteq> name \<longrightarrow>
            map_of (registry (snd (delete_model s name ver))) n = map_of (registry s) n"
    by (simp add: d update_conv')
  show "map fst (registry (snd (delete_model s name ver))) = map fst (registry s)"
    using kn by (simp add: d update_keys)
  show "disk (snd (delete_model s name ver)) = disk s" by (simp add: d)
  show "get_model_path (snd (delete_model s name ver)) name ''latest''
          = get_model_path s name ''latest''"
    by (rule get_model_path_delete_model)
qed


lemmas example_defs = example_store_def example_models_def entry_m_1_0_def entry_m_1_1_def
  entry_old_1_0_def


theorem latest_resolves_newest_witness:
  "map_of (registry example_store) ''m'' = Some [(''1.0'', entry_m_1_0), (''1.1'', entry_m_1_1)]
   \<and> ''2024-01-01T10:00:00.000000'' < ''2024-01-02T09:30:00.000000''
   \<and> resolve_version [(''1.0'', entry_m_1_0), (''1.1'', entry_m_1_1)] ''latest'' = ''1.1''
   \<and> get_model_path example_store ''m'' ''latest'' = Some ''models/m/1.1''"
proof -
  let ?vs = "[(''1.0'', entry_m_1_0), (''1.1'', entry_m_1_1)]"
  have reg: "map_of (registry example_store) ''m'' = Some ?vs"
    by (simp add: example_store_def example_models_def)
  have dist: "distinct (map fst ?vs)" by simp
  have v1: "(''1.0'', entry_m_1_0) \<in> set ?vs" and v2: "(''1.1'', entry_m_1_1) \<in> set ?vs"
    by simp_all
  have t1: "registered_at entry_m_1_0 = Some ''2024-01-01T10:00:00.000000''"
    by (simp add: entry_m_1_0_def)
  have t2: "registered_at entry_m_1_1 = Some ''2024-01-02T09:30:00.000000''"
    by (simp add: entry_m_1_1_def)
  have lt: "''2024-01-01T10:00:00.000000'' < ''2024-01-02T09:30:00.000000''" by simp
  have others: "\<forall>(v, e) \<in> set ?vs. v = ''1.0'' \<or> v = ''1.1''
      \<or> registered_key (v, e) < ''2024-01-02T09:30:00.000000''"
    by simp
  have ex: "path_exists example_store (path entry_m_1_1)"
    by (simp add: path_exists_def example_store_def entry_m_1_1_def)
  from latest_resolves_newest [OF reg dist v1 v2 t1 t2 lt] others ex
  have "resolve_version ?vs ''latest'' = ''1.1''"
    and "get_model_path example_store ''m'' ''latest'' = Some (path entry_m_1_1)"
    by simp_all
  then show ?thesis using reg lt by (simp add: entry_m_1_1_def)
qed

theorem delete_model_soft_witness:
  "map_of (registry example_store) ''m'' = Some [(''1.0'', entry_m_1_0), (''1.1'', entry_m_1_1)]
   \<and> fst (delete_model example_store ''m'' ''1.1'') = True
   \<and> disk (snd (delete_model example_store ''m'' ''1.1'')) = disk example_store
   \<and> get_model_path (snd (delete_model example_store ''m'' ''1.1'')) ''m'' ''latest''
       = Some ''models/m/1.1''
   \<and> map_of (registry example_store) ''x'' = None
   \<and> delete_model example_store ''x'' ''1.0'' = (False, example_store)"
proof -
  let ?vs = "[(''1.0'', entry_m_1_0), (''1.1'', entry_m_1_1)]"
  have reg: "map_of (registry example_store) ''m'' = Some ?vs \<and> map_of ?vs ''1.1'' = Some entry_m_1_1"
    by (simp add: example_store_def example_models_def)
  have none: "map_of (registry example_store) ''x'' = None"
    by (simp add: example_store_def example_models_def)
  have latest: "get_model_path example_store ''m'' ''latest'' = Some ''models/m/1.1''"
    by (simp add: get_model_path_def resolve_version_def latest_version_def registered_key_def
        path_exists_def example_defs)
  from delete_model_soft [of example_store "''m''" ?vs "''1.1''" entry_m_1_1] reg
  have a: "fst (delete_model example_store ''m'' ''1.1'') = True"
    and b: "disk (snd (delete_model example_store ''m'' ''1.1'')) = disk example_store"
    and c: "get_model_path (snd (delete_model example_store ''m'' ''1.1'')) ''m'' ''latest''
          = get_model_path example_store ''m'' ''latest''"
    by blast+
  from delete_model_soft [of example_store "''x''" ?vs "''1.0''" entry_m_1_1] none
  have d: "delete_model example_store ''x'' ''1.0'' = (False, example_store)" by blast
  from a b c d reg none latest show ?thesis by simp
qed

section \<open>Properties of \<^verbatim>\<open>prepare_input\<close>\<close>

lemma record_columns_set: "set (record_columns ds) = (\<Union>r \<in> set ds. fst ` set r)"
  by (auto simp: record_columns_def)

lemma record_columns_distinct: "distinct (record_columns ds)"
  by (simp add: record_columns_def)

lemma cells_of_distinct:
  "distinct cs \<Longrightarrow> f \<in> set cs \<Longrightarrow> cells_of cs (map g cs) f = [g f]"
proof (induction cs)
  case Nil
  then show ?case by simp
next
  case (Cons c cs)
  show ?case
  proof (cases "c = f")
    case True
    with Cons.prems have "f \<notin> set cs" by simp
    then have "filter (\<lambda>cv. fst cv = f) (zip cs (map g cs)) = []"
      by (auto simp: filter_empty_conv dest: set_zip_leftD)
    with True show ?thesis by (simp add: cells_of_def)
  next
    case False
    with Cons.prems have "f \<in> set cs" "distinct cs" by auto
    with Cons.IH have "cells_of cs (map g cs) f = [g f]" by simp
    with False show ?thesis by (simp add: cells_of_def)
  qed
qed

lemma concat_cells_of:
  assumes "distinct cs" "set fs \<subseteq> set cs"
  shows "concat (map (cells_of cs (map g cs)) fs) = map g fs"
  using assms(2)
proof (induction fs)
  case Nil
  show ?case by simp
next
  case (Cons f fs)
  then show ?case by (simp add: cells_of_distinct [OF assms(1)])
qed

lemma select_features_records:
  "select_features fs (DataFrame_of_records ds) =
     (if \<exists>f \<in> set fs. \<forall>r \<in> set ds. f \<notin> fst ` set r
      then Inl (MissingFeatures (filter (\<lambda>f. \<forall>r \<in> set ds. f \<notin> fst ` set r) fs))
      else Inr (map (\<lambda>r. map (map_of r) fs) ds))"
proof -
  let ?cs = "record_columns ds"
  have absent: "f \<notin> set ?cs \<longleftrightarrow> (\<forall>r \<in> set ds. f \<notin> fst ` set r)" for f
    by (simp add: record_columns_set)
  have miss: "filter (\<lambda>f. f \<notin> set ?cs) fs = filter (\<lambda>f. \<forall>r \<in> set ds. f \<notin> fst ` set r) fs"
    by (rule filter_cong) (simp_all add: absent)
  show ?thesis
  proof (cases "\<exists>f \<in> set fs. \<forall>r \<in> set ds. f \<notin> fst ` set r")
    case True
    then have "filter (\<lambda>f. \<forall>r \<in> set ds. f \<notin> fst ` set r) fs \<noteq> []"
      by (simp add: filter_empty_conv)
    with True miss show ?thesis
      by (simp add: select_features_def DataFrame_of_records_def Let_def)
  next
    case False
    then have sub: "set fs \<subseteq> set ?cs" using absent by blast
    from False have none: "filter (\<lambda>f. \<forall>r \<in> set ds. f \<notin> fst ` set r) fs = []"
      by (simp add: filter_empty_conv)
    have ok: "\<not> (\<exists>f \<in> set fs. f \<notin> set ?cs)" using sub by blast
    have "map (\<lambda>r. concat (map (cells_of ?cs r) fs)) (map (\<lambda>d. map (map_of d) ?cs) ds)
          = map (\<lambda>r. map (map_of r) fs) ds"
      by (simp add: concat_cells_of [OF record_columns_distinct sub] cong: map_cong)
    with False miss none ok show ?thesis
      by (simp add: select_features_def DataFrame_of_records_def Let_def getitem_columns_def)
  qed
qed

text \<open>
  Claim C3. For a mapping or a list of mappings given to \<^verbatim>\<open>prepare_input\<close>: if
  some required feature is a key of none of the records (it is absent from the columns
  of the input), the error raised carries all the absent features, which is exactly
  the set of the missing ones and not only the first; if none is absent, every row of
  the result holds the values of the features in the order of the feature contract.
\<close>

theorem prepare_input_mapping:
  "prepare_input fs (Records ds) =
     (if \<exists>f \<in> set fs. \<forall>r \<in> set ds. f \<notin> fst ` set r
      then Inl (MissingFeatures (filter (\<lambda>f. \<forall>r \<in> set ds. f \<notin> fst ` set r) fs))
      else Inr (map (\<lambda>r. map (map_of r) fs) ds))
   \<and> prepare_input fs (Dict d) =
     (if \<exists>f \<in> set fs. f \<notin> fst ` set d
      then Inl (MissingFeatures (filter (\<lambda>f. f \<notin> fst ` set d) fs))
      else Inr [map (map_of d) fs])
   \<and> set (filter (\<lambda>f. \<forall>r \<in> set ds. f \<notin> fst ` set r) fs)
       = {f \<in> set fs. \<forall>r \<in> set ds. f \<notin> fst ` set r}"
  using select_features_records [of fs ds] select_features_records [of fs "[d]"]
  by simp

theorem prepare_input_mapping_witness:
  "prepare_input [''a'', ''b'', ''c'', ''d''] (Dict [(''b'', 2::int), (''e'', 5)])
     = Inl (MissingFeatures [''a'', ''c'', ''d''])
   \<and> prepare_input [''a'', ''b''] (Records [[(''b'', 2::int), (''a'', 1)], [(''a'', 3), (''b'', 4), (''z'', 0)]])
     = Inr [[Some 1, Some 2], [Some 3, Some 4]]"
proof -
  have "prepare_input [''a'', ''b'', ''c'', ''d''] (Dict [(''b'', 2::int), (''e'', 5)])
     = Inl (MissingFeatures [''a'', ''c'', ''d''])"
    using prepare_input_mapping [of "[''a'', ''b'', ''c'', ''d'']" "[]" "[(''b'', 2::int), (''e'', 5)]"]
    by auto
  moreover have "prepare_input [''a'', ''b'']
      (Records [[(''b'', 2::int), (''a'', 1)], [(''a'', 3), (''b'', 4), (''z'', 0)]])
     = Inr [[Some 1, Some 2], [Some 3, Some 4]]"
    using prepare_input_mapping [of "[''a'', ''b'']"
      "[[(''b'', 2::int), (''a'', 1)], [(''a'', 3), (''b'', 4), (''z'', 0)]]" "[]"]
    by auto
  ultimately show ?thesis by (rule conjI)
qed

lemma select_features_frame:
  "select_features fs df =
     (if \<exists>f \<in> set fs. f \<notin> set (columns df)
      then Inl (MissingFeatures (filter (\<lambda>f. f \<notin> set (columns df)) fs))
      else Inr (map (\<lambda>r. concat (map (cells_of (columns df) r) fs)) (rows df)))"
  by (auto simp: select_features_def Let_def getitem_columns_def filter_empty_conv)

text \<open>
  Claim C10. An array given to \<^verbatim>\<open>prepare_input\<close> is returned unchanged, whatever
  the feature contract and whatever its shape, and never raises; only a mapping, a
  list of mappings or a frame can raise, and a frame is checked against the feature
  contract like a mapping.
\<close>

theorem prepare_input_ndarray:
  "prepare_input fs (Ndarray a) = Inr a
   \<and> (\<forall>e. prepare_input fs x = Inl e \<longrightarrow>
         (\<exists>d. x = Dict d) \<or> (\<exists>ds. x = Records ds) \<or> (\<exists>df. x = DataFrame df))
   \<and> prepare_input fs (DataFrame df) =
       (if \<exists>f \<in> set fs. f \<notin> set (columns df)
        then Inl (MissingFeatures (filter (\<lambda>f. f \<notin> set (columns df)) fs))
        else Inr (map (\<lambda>r. concat (map (cells_of (columns df) r) fs)) (rows df)))"
  by (cases x) (simp_all add: select_features_frame)

theorem prepare_input_ndarray_witness:
  "prepare_input [''a'', ''b''] (Ndarray [[Some (7::int)]]) = Inr [[Some 7]]
   \<and> prepare_input [''a'', ''b''] (DataFrame \<lparr>columns = [''b'', ''x''], rows = [[Some (2::int), Some 9]]\<rparr>)
       = Inl (MissingFeatures [''a''])
   \<and> prepare_input [''a'', ''b''] (DataFrame \<lparr>columns = [''b'', ''a''], rows = [[Some (2::int), Some 1]]\<rparr>)
       = Inr [[Some 1, Some 2]]"
  using prepare_input_ndarray [of "[''a'', ''b'']" "[[Some (7::int)]]" "Ndarray [[Some (7::int)]]"
      "\<lparr>columns = [''b'', ''x''], rows = [[Some (2::int), Some 9]]\<rparr>"]
    prepare_input_ndarray [of "[''a'', ''b'']" "[[Some (7::int)]]" "Ndarray [[Some (7::int)]]"
      "\<lparr>columns = [''b'', ''a''], rows = [[Some (2::int), Some 1]]\<rparr>"]
  by (simp add: cells_of_def)

section \<open>Properties of the predictor\<close>






lemma range_len:
  assumes "0 < b" "0 < n"
  shows "(n + b - 1) div b = Suc ((n - b + b - 1) div b)"
proof (cases "n \<le> b")
  case True
  with assms have "(n + b - 1) div b = 1"
    by (simp add: div_nat_eqI)
  moreover from True assms have "(n - b + b - 1) div b = 0" by simp
  ultimately show ?thesis by simp
next
  case False
  then have a: "n - b + b = n" by simp
  have "n + b - 1 = (n - 1) + b" using assms by simp
  then have "(n + b - 1) div b = ((n - 1) + b) div b" by (rule arg_cong)
  also have "\<dots> = Suc ((n - 1) div b)" using assms(1) by simp
  finally have "(n + b - 1) div b = Suc ((n - 1) div b)" .
  then show ?thesis by (simp add: a)
qed

lemma slices_chunks:
  assumes "0 < b"
  shows "map (\<lambda>i. take b (drop i A)) (map (\<lambda>k. k * b) [0 ..< (length A + b - 1) div b])
         = chunks b A"
proof (induction "length A" arbitrary: A rule: less_induct)
  case less
  show ?case
  proof (cases "A = []")
    case True
    with assms show ?thesis by (simp add: chunks.simps)
  next
    case False
    let ?n = "length A" and ?A' = "drop b A"
    have len: "(?n + b - 1) div b = Suc ((length ?A' + b - 1) div b)"
      using range_len [of b ?n] assms False by simp
    have shorter: "length ?A' < ?n" using assms False by simp
    have IH: "map (\<lambda>i. take b (drop i ?A')) (map (\<lambda>k. k * b) [0 ..< (length ?A' + b - 1) div b])
             = chunks b ?A'"
      using less [OF shorter] .
    have up: "[0 ..< Suc m] = 0 # map Suc [0 ..< m]" for m
      by (simp add: upt_conv_Cons map_Suc_upt del: upt_Suc)
    have "map (\<lambda>i. take b (drop i A)) (map (\<lambda>k. k * b) [0 ..< (?n + b - 1) div b])
          = take b A # map (\<lambda>i. take b (drop i ?A')) (map (\<lambda>k. k * b) [0 ..< (length ?A' + b - 1) div b])"
      unfolding len up by (simp add: o_def add.commute)
    also have "\<dots> = take b A # chunks b ?A'" by (simp only: IH)
    also have "\<dots> = chunks b A" using assms False by (subst (2) chunks.simps) simp
    finally show ?thesis .
  qed
qed

lemma concat_chunks: "0 < b \<Longrightarrow> concat (chunks b A) = A"
proof (induction b A rule: chunks.induct)
  case (1 b xs)
  then show ?case by (subst chunks.simps) auto
qed

lemma chunks_nonempty: "c \<in> set (chunks b A) \<Longrightarrow> c \<noteq> [] \<and> length c \<le> b"
proof (induction b A rule: chunks.induct)
  case (1 b xs)
  from "1.prems" have ne: "\<not> (b = 0 \<or> xs = [])"
    by (subst (asm) chunks.simps) (auto split: if_splits)
  with "1.prems" have "c = take b xs \<or> c \<in> set (chunks b (drop b xs))"
    by (subst (asm) chunks.simps) (auto split: if_splits)
  then show ?case using "1.IH" ne by auto
qed

lemma predict_batches_map:
  assumes "\<forall>i \<in> set idx. predict lib sm (Values (take b (drop i A))) = Inr (g (take b (drop i A)))"
  shows "predict_batches lib sm A b idx = Inr (map (\<lambda>i. g (take b (drop i A))) idx)"
  using assms by (induction idx) auto

lemma batch_predict_chunks:
  assumes "0 < b" "A \<noteq> []"
    and "\<forall>c \<in> set (chunks (nat b) A). predict lib sm (Values c) = Inr (g c)"
  shows "batch_predict lib sm (Values A) b = Inr (concat (map g (chunks (nat b) A)))"
proof -
  let ?idx = "map (\<lambda>k. k * nat b) [0 ..< (length A + nat b - 1) div nat b]"
  have pos: "0 < nat b" using assms(1) by simp
  have sl: "map (\<lambda>i. take (nat b) (drop i A)) ?idx = chunks (nat b) A"
    using pos by (rule slices_chunks)
  have "\<forall>i \<in> set ?idx. take (nat b) (drop i A) \<in> set (chunks (nat b) A)"
    unfolding sl [symmetric] by simp
  with assms(3) have "\<forall>i \<in> set ?idx. predict lib sm (Values (take (nat b) (drop i A)))
      = Inr (g (take (nat b) (drop i A)))"
    by blast
  then have pb: "predict_batches lib sm A (nat b) ?idx
      = Inr (map (\<lambda>i. g (take (nat b) (drop i A))) ?idx)"
    by (rule predict_batches_map)
  have "map (\<lambda>i. g (take (nat b) (drop i A))) ?idx = map g (chunks (nat b) A)"
    unfolding sl [symmetric] by (simp add: o_def)
  with pb have pb': "predict_batches lib sm A (nat b) ?idx = Inr (map g (chunks (nat b) A))"
    by simp
  have "chunks (nat b) A \<noteq> []" using pos assms(2) by (subst chunks.simps) simp
  then show ?thesis
    using assms(1) pb' by (simp add: batch_predict_def py_range0_def np_concatenate_def)
qed


lemma batch_predict_values:
  "batch_predict lib sm X b = batch_predict lib sm (Values (values_of X)) b"
  by (simp add: batch_predict_def)

text \<open>
  Claim C5, as stated, fails on a matrix without rows: the loop makes no prediction
  and \<^verbatim>\<open>np.concatenate\<close> raises on the empty list, although the matrix has no
  chunk and the classifier answers it with the empty array.
\<close>

theorem batch_predict_empty_raises:
  "batch_predict example_estimators (Some example_model) (Values []) 8
     = Inl (ValueError ''need at least one array to concatenate'')
   \<and> predict example_estimators (Some example_model) (Values []) = Inr []
   \<and> chunks 8 ([] :: real list list) = []"
  by (simp add: batch_predict_def py_range0_def np_concatenate_def predict_def
      BaseModel_predict_def example_estimators_def example_model_def chunks.simps)

text \<open>
  Claim C5, amended. For a matrix with at least one row and a positive batch size
  \<open>b\<close>, \<^verbatim>\<open>batch_predict\<close> returns the predictions of the contiguous chunks of
  size \<open>b\<close> (which are non-empty, at most \<open>b\<close> long, and concatenate to the
  matrix in its row order), each predicted on its own and concatenated in order. If
  the loaded classifier predicts row by row, the result is the row-wise prediction of
  the whole matrix, so that batch size 8 and batch size \<^verbatim>\<open>len(X)\<close> give the
  same array.
\<close>

theorem batch_predict_chunking:
  assumes "0 < b" and "values_of X \<noteq> []"
  shows "((\<forall>c \<in> set (chunks (nat b) (values_of X)). predict lib sm (Values c) = Inr (g c))
          \<longrightarrow> batch_predict lib sm X b
                = Inr (concat (map g (chunks (nat b) (values_of X)))))
     \<and> concat (chunks (nat b) (values_of X)) = values_of X
     \<and> (\<forall>c \<in> set (chunks (nat b) (values_of X)). c \<noteq> [] \<and> length c \<le> nat b)
     \<and> ((\<forall>c. c \<noteq> [] \<longrightarrow> predict lib sm (Values c) = Inr (map f c))
          \<longrightarrow> batch_predict lib sm X b = Inr (map f (values_of X))
              \<and> batch_predict lib sm X 8
                  = batch_predict lib sm X (int (length (values_of X))))"
proof -
  let ?A = "values_of X"
  have pos: "0 < nat b" using assms(1) by simp
  have cc: "concat (chunks (nat k) ?A) = ?A" if "0 < k" for k :: int
    using that by (simp add: concat_chunks)
  have rowwise: "batch_predict lib sm X k = Inr (map f ?A)"
    if rw: "\<forall>c. c \<noteq> [] \<longrightarrow> predict lib sm (Values c) = Inr (map f c)" and k: "0 < k"
    for k :: int
  proof -
    have "\<forall>c \<in> set (chunks (nat k) ?A). predict lib sm (Values c) = Inr (map f c)"
      using rw chunks_nonempty by blast
    with k assms(2) have "batch_predict lib sm (Values ?A) k
        = Inr (concat (map (map f) (chunks (nat k) ?A)))"
      by (rule batch_predict_chunks)
    also have "concat (map (map f) (chunks (nat k) ?A)) = map f (concat (chunks (nat k) ?A))"
      by (simp add: map_concat)
    also have "\<dots> = map f ?A" by (simp only: cc [OF k])
    finally show ?thesis by (simp add: batch_predict_values [of lib sm X])
  qed
  have len: "0 < int (length ?A)" using assms(2) by simp
  have 1: "(\<forall>c \<in> set (chunks (nat b) ?A). predict lib sm (Values c) = Inr (g c))
          \<longrightarrow> batch_predict lib sm X b = Inr (concat (map g (chunks (nat b) ?A)))"
    using batch_predict_chunks [OF assms(1) assms(2), of lib sm g]
    by (simp add: batch_predict_values [of lib sm X])
  have 2: "concat (chunks (nat b) ?A) = ?A" using assms(1) by (rule cc)
  have 3: "\<forall>c \<in> set (chunks (nat b) ?A). c \<noteq> [] \<and> length c \<le> nat b"
    using chunks_nonempty by blast
  have 4: "(\<forall>c. c \<noteq> [] \<longrightarrow> predict lib sm (Values c) = Inr (map f c))
          \<longrightarrow> batch_predict lib sm X b = Inr (map f ?A)
              \<and> batch_predict lib sm X 8 = batch_predict lib sm X (int (length ?A))"
    using rowwise [of b] rowwise [of 8] rowwise [of "int (length ?A)"] assms(1) len
    by simp
  from 1 2 3 4 show ?thesis by blast
qed

theorem batch_predict_chunking_witness:
  "(0::int) < 2 \<and> values_of (Values [[3 / 10], [4 / 5], [1 / 2 :: real]]) \<noteq> []
   \<and> chunks 2 [[3 / 10], [4 / 5], [1 / 2 :: real]] = [[[3 / 10], [4 / 5]], [[1 / 2]]]
   \<and> batch_predict example_estimators (Some example_model)
        (Values [[3 / 10], [4 / 5], [1 / 2]]) 2 = Inr [0, 1, 1]
   \<and> batch_predict example_estimators (Some example_model)
        (Values [[3 / 10], [4 / 5], [1 / 2]]) 8
      = batch_predict example_estimators (Some example_model)
        (Values [[3 / 10], [4 / 5], [1 / 2]]) 3"
proof -
  let ?X = "Values [[3 / 10], [4 / 5], [1 / 2 :: real]]"
  let ?f = "\<lambda>r :: real list. if hd r \<ge> 1 / 2 then 1 else 0 :: int"
  have pos: "(0::int) < 2" by simp
  have ne: "values_of ?X \<noteq> []" by simp
  have rw: "\<forall>c. c \<noteq> [] \<longrightarrow> predict example_estimators (Some example_model) (Values c)
      = Inr (map ?f c)"
    by (simp add: predict_def BaseModel_predict_def example_estimators_def example_model_def)
  have ch: "chunks 2 [[3 / 10], [4 / 5], [1 / 2 :: real]] = [[[3 / 10], [4 / 5]], [[1 / 2]]]"
    by (simp add: chunks.simps)
  from batch_predict_chunking [OF pos ne, of example_estimators "Some example_model" "map ?f" ?f] rw
  have "batch_predict example_estimators (Some example_model) ?X 2 = Inr (map ?f (values_of ?X))"
    and "batch_predict example_estimators (Some example_model) ?X 8
          = batch_predict example_estimators (Some example_model) ?X (int (length (values_of ?X)))"
    by blast+
  then show ?thesis using ch by simp
qed

section \<open>Properties of the training orchestrator\<close>

lemma continues_refl: "continues s s"
  by (simp add: continues_def)

lemma continues_trans:
  assumes "continues s s'" "continues s' s''"
  shows "continues s s''"
proof -
  from assms(1) obtain evs where e1: "fit_calls s' = fit_calls s @ evs"
    and n1: "\<forall>n. FitBase n \<in> set evs \<longrightarrow> map_of (trained_models s) n = None"
    and c1: "\<forall>n. map_of (trained_models s) n \<noteq> None \<longrightarrow> map_of (trained_models s') n \<noteq> None"
    unfolding continues_def by blast
  from assms(2) obtain evs' where e2: "fit_calls s'' = fit_calls s' @ evs'"
    and n2: "\<forall>n. FitBase n \<in> set evs' \<longrightarrow> map_of (trained_models s') n = None"
    and c2: "\<forall>n. map_of (trained_models s') n \<noteq> None \<longrightarrow> map_of (trained_models s'') n \<noteq> None"
    unfolding continues_def by blast
  have "fit_calls s'' = fit_calls s @ (evs @ evs')" using e1 e2 by simp
  moreover have "\<forall>n. FitBase n \<in> set (evs @ evs') \<longrightarrow> map_of (trained_models s) n = None"
    using n1 n2 c1 by auto
  moreover have "\<forall>n. map_of (trained_models s) n \<noteq> None \<longrightarrow> map_of (trained_models s'') n \<noteq> None"
    using c1 c2 by blast
  ultimately show ?thesis unfolding continues_def by blast
qed

lemma fit_calls_cases:
  "fit lib e d calls = (r, calls') \<Longrightarrow> calls' = calls \<or> calls' = calls @ [FitEnsemble]"
  by (auto simp: fit_def split: if_splits sum.splits option.splits)

lemma train_model_base:
  assumes "name \<noteq> ''hybrid_ensemble''" and "train_model k lib d name ps s = (r, s')"
  shows "(\<exists>m. r = Inr m \<and> model_name m = name \<and> is_trained m
            \<and> s' = s\<lparr>trained_models := AList.update name m (trained_models s),
                     fit_calls := fit_calls s @ [FitBase name]\<rparr>)
       \<or> (\<exists>e. r = Inl e \<and> trained_models s' = trained_models s
            \<and> (fit_calls s' = fit_calls s \<or> fit_calls s' = fit_calls s @ [FitBase name]))"
proof (cases k)
  case 0
  with assms(2) show ?thesis by auto
next
  case (Suc k')
  with assms show ?thesis
    by (auto simp: new_model_def base_fit_def Let_def
        split: if_splits sum.splits option.splits prod.splits)
qed

lemma continues_step_event:
  "(\<forall>n. ev = FitBase n \<longrightarrow> map_of (trained_models s) n = None) \<Longrightarrow>
   continues s (s\<lparr>fit_calls := fit_calls s @ [ev]\<rparr>)"
  by (auto simp: continues_def)

lemma continues_step_cache:
  "(\<forall>n. ev = FitBase n \<longrightarrow> map_of (trained_models s) n = None) \<Longrightarrow>
   continues s (s\<lparr>trained_models := AList.update k m (trained_models s),
                  fit_calls := fit_calls s @ [ev]\<rparr>)"
  by (auto simp: continues_def update_conv')

lemma training_continues:
  shows "name = ''hybrid_ensemble'' \<or> map_of (trained_models s) name = None \<Longrightarrow>
         continues s (snd (train_model k lib d name ps s))"
    and "continues s (snd (train_ensemble k lib d ps s))"
    and "continues s (snd (train_base_models k lib d ns bms s))"
proof (induction k lib d name ps s and k lib d ps s and k lib d ns bms s
    rule: train_model_train_ensemble_train_base_models.induct)
  case (1 lib d name ps s)
  show ?case by (simp add: continues_refl)
next
  case (2 k lib d name ps s)
  show ?case
  proof (cases "name = ''hybrid_ensemble''")
    case True
    then have "name \<in> set MODEL_REGISTRY" by (simp add: MODEL_REGISTRY_def)
    with True "2.IH" show ?thesis by simp
  next
    case False
    with "2.prems" have un: "map_of (trained_models s) name = None" by simp
    obtain r s' where rs: "train_model (Suc k) lib d name ps s = (r, s')" by force
    from train_model_base [OF False rs] show ?thesis
    proof (elim disjE exE conjE)
      fix m assume "s' = s\<lparr>trained_models := AList.update name m (trained_models s),
                     fit_calls := fit_calls s @ [FitBase name]\<rparr>"
      with un rs show ?thesis by (simp add: continues_step_cache)
    next
      fix e assume tm: "trained_models s' = trained_models s"
        and "fit_calls s' = fit_calls s"
      then have "continues s s'" by (simp add: continues_def)
      with rs show ?thesis by simp
    next
      fix e assume tm: "trained_models s' = trained_models s"
        and "fit_calls s' = fit_calls s @ [FitBase name]"
      with un have "continues s s'" by (auto simp: continues_def)
      with rs show ?thesis by simp
    qed
  qed
next
  case (3 lib d ps s)
  show ?case by (simp add: continues_refl)
next
  case (4 k lib d ps s)
  show ?case
  proof (cases "config_models lib")
    case None
    then show ?thesis by (simp add: continues_refl)
  next
    case (Some cm)
    obtain r s1 where loop: "train_base_models k lib d (base_model_names cm) [] s = (r, s1)"
      by force
    with "4.IH" [OF Some] have c1: "continues s s1" by simp
    show ?thesis
    proof (cases r)
      case (Inl e)
      with Some loop c1 show ?thesis by simp
    next
      case (Inr bms)
      obtain r2 calls where f: "fit lib (new_ensemble lib bms ps) d (fit_calls s1) = (r2, calls)"
        by force
      from fit_calls_cases [OF f] have c2: "continues s1 (s1\<lparr>fit_calls := calls\<rparr>)"
        by (auto simp: continues_def)
      have c3: "continues s1 (s1\<lparr>trained_models :=
          AList.update ''hybrid_ensemble'' m (trained_models s1), fit_calls := calls\<rparr>)" for m
        using fit_calls_cases [OF f] by (auto simp: continues_def update_conv')
      show ?thesis
        using Some loop Inr f continues_trans [OF c1 c2] continues_trans [OF c1 c3]
        by (cases r2) simp_all
    qed
  qed
next
  case (5 k lib d bms s)
  show ?case by (simp add: continues_refl)
next
  case (6 k lib d name names bms s)
  show ?case
  proof (cases "map_of (trained_models s) name")
    case (Some m)
    with "6.IH"(3) show ?thesis by simp
  next
    case None
    obtain r s1 where tm: "train_model k lib d name None s = (r, s1)" by force
    from "6.IH"(1) [OF None] None tm have c1: "continues s s1" by simp
    show ?thesis
    proof (cases r)
      case (Inl e)
      with None tm c1 show ?thesis by simp
    next
      case (Inr m)
      from "6.IH"(2) [OF None tm [symmetric] Inr]
      have "continues s1 (snd (train_base_models k lib d names (bms @ [m]) s1))" .
      with c1 have "continues s (snd (train_base_models k lib d names (bms @ [m]) s1))"
        by (rule continues_trans)
      with None tm Inr show ?thesis by simp
    qed
  qed
qed


lemma nested_ensemble_fails:
  shows "(\<forall>cm. config_models lib = Some cm \<longrightarrow> ''hybrid_ensemble'' \<in> set (base_model_names cm)) \<Longrightarrow>
         name = ''hybrid_ensemble'' \<Longrightarrow> map_of (trained_models s) ''hybrid_ensemble'' = None \<Longrightarrow>
         isl (fst (train_model k lib d name ps s))"
    and "(\<forall>cm. config_models lib = Some cm \<longrightarrow> ''hybrid_ensemble'' \<in> set (base_model_names cm)) \<Longrightarrow>
         map_of (trained_models s) ''hybrid_ensemble'' = None \<Longrightarrow>
         isl (fst (train_ensemble k lib d ps s))"
    and "(\<forall>cm. config_models lib = Some cm \<longrightarrow> ''hybrid_ensemble'' \<in> set (base_model_names cm)) \<Longrightarrow>
         ''hybrid_ensemble'' \<in> set ns \<Longrightarrow> map_of (trained_models s) ''hybrid_ensemble'' = None \<Longrightarrow>
         isl (fst (train_base_models k lib d ns bms s))"
proof (induction k lib d name ps s and k lib d ps s and k lib d ns bms s
    rule: train_model_train_ensemble_train_base_models.induct)
  case (1 lib d name ps s)
  show ?case by simp
next
  case (2 k lib d name ps s)
  have "name \<in> set MODEL_REGISTRY" using "2.prems"(2) by (simp add: MODEL_REGISTRY_def)
  with "2.IH" "2.prems" show ?case by simp
next
  case (3 lib d ps s)
  show ?case by simp
next
  case (4 k lib d ps s)
  show ?case
  proof (cases "config_models lib")
    case None
    then show ?thesis by simp
  next
    case (Some cm)
    with "4.prems" have "''hybrid_ensemble'' \<in> set (base_model_names cm)" by simp
    with "4.IH" [OF Some "4.prems"(1)] "4.prems"(2)
    have "isl (fst (train_base_models k lib d (base_model_names cm) [] s))" by simp
    with Some show ?thesis
      by (cases "train_base_models k lib d (base_model_names cm) [] s")
        (auto simp: isl_def)
  qed
next
  case (5 k lib d bms s)
  then show ?case by simp
next
  case (6 k lib d name names bms s)
  show ?case
  proof (cases "map_of (trained_models s) name")
    case (Some m)
    with "6.prems" have "name \<noteq> ''hybrid_ensemble''" by auto
    with "6.prems" have "''hybrid_ensemble'' \<in> set names" by simp
    with "6.IH"(3) [OF Some "6.prems"(1)] "6.prems"(3) Some show ?thesis by simp
  next
    case None
    obtain r s1 where tm: "train_model k lib d name None s = (r, s1)" by force
    show ?thesis
    proof (cases r)
      case (Inl e)
      with None tm show ?thesis by simp
    next
      case (Inr m)
      have neq: "name \<noteq> ''hybrid_ensemble''"
      proof
        assume "name = ''hybrid_ensemble''"
        with "6.IH"(1) [OF None "6.prems"(1)] "6.prems"(3) tm Inr show False by simp
      qed
      with "6.prems" have mem: "''hybrid_ensemble'' \<in> set names" by simp
      from train_model_base [OF neq tm] Inr
      have "trained_models s1 = AList.update name m (trained_models s)" by auto
      with neq "6.prems"(3) have "map_of (trained_models s1) ''hybrid_ensemble'' = None"
        by (simp add: update_conv')
      with "6.IH"(2) [OF None tm [symmetric] Inr "6.prems"(1) mem]
      show ?thesis using None tm Inr by simp
    qed
  qed
qed

lemma uncached_cong: "set seen = set seen' \<Longrightarrow> uncached seen ns = uncached seen' ns"
proof (induction ns arbitrary: seen seen')
  case Nil
  show ?case by simp
next
  case (Cons n ns)
  have "uncached (n # seen) ns = uncached (n # seen') ns"
    by (rule Cons.IH) (simp add: Cons.prems)
  moreover have "uncached seen ns = uncached seen' ns" by (rule Cons.IH) (rule Cons.prems)
  ultimately show ?case using Cons.prems by simp
qed

lemma uncached_set: "set (uncached seen ns) = set ns - set seen"
  by (induction ns arbitrary: seen) auto

lemma uncached_distinct: "distinct (uncached seen ns)"
  by (induction ns arbitrary: seen) (auto simp: uncached_set)

lemma cached_iff: "map_of c n \<noteq> None \<longleftrightarrow> n \<in> set (map fst c)"
  by (simp add: map_of_eq_None_iff)

lemma train_base_models_success:
  assumes "''hybrid_ensemble'' \<in> set ns \<longrightarrow>
      (\<forall>cm. config_models lib = Some cm \<longrightarrow> ''hybrid_ensemble'' \<in> set (base_model_names cm))"
    and "train_base_models k lib d ns bms s = (Inr bms', s')"
  shows "fit_calls s' = fit_calls s @ map FitBase (uncached (map fst (trained_models s)) ns)
    \<and> (\<exists>new. bms' = bms @ new \<and> length new = length ns
          \<and> (\<forall>i < length ns.
                (\<forall>m. map_of (trained_models s) (ns ! i) = Some m \<longrightarrow> new ! i = m)
              \<and> map_of (trained_models s') (ns ! i) = Some (new ! i)))
    \<and> (\<forall>n. n \<notin> set ns \<or> map_of (trained_models s) n \<noteq> None \<longrightarrow>
          map_of (trained_models s') n = map_of (trained_models s) n)"
  using assms
proof (induction ns arbitrary: bms s)
  case Nil
  then show ?case by simp
next
  case (Cons n ns)
  have A: "''hybrid_ensemble'' \<in> set ns \<longrightarrow>
      (\<forall>cm. config_models lib = Some cm \<longrightarrow> ''hybrid_ensemble'' \<in> set (base_model_names cm))"
    using Cons.prems(1) by simp
  show ?case
  proof (cases "map_of (trained_models s) n")
    case (Some m)
    with Cons.prems(2) have loop: "train_base_models k lib d ns (bms @ [m]) s = (Inr bms', s')"
      by simp
    from Cons.IH [OF A loop] obtain new
      where calls: "fit_calls s' = fit_calls s @ map FitBase (uncached (map fst (trained_models s)) ns)"
        and new: "bms' = (bms @ [m]) @ new" "length new = length ns"
        and idx: "\<forall>i < length ns.
                (\<forall>m. map_of (trained_models s) (ns ! i) = Some m \<longrightarrow> new ! i = m)
              \<and> map_of (trained_models s') (ns ! i) = Some (new ! i)"
        and frame: "\<forall>n. n \<notin> set ns \<or> map_of (trained_models s) n \<noteq> None \<longrightarrow>
          map_of (trained_models s') n = map_of (trained_models s) n"
      by blast
    have seen: "n \<in> set (map fst (trained_models s))" using Some cached_iff [of "trained_models s" n] by simp
    have 1: "fit_calls s' = fit_calls s @ map FitBase (uncached (map fst (trained_models s)) (n # ns))"
      using calls seen by simp
    have keep: "map_of (trained_models s') n = Some m" using frame Some by simp
    have 2: "\<exists>new'. bms' = bms @ new' \<and> length new' = length (n # ns)
          \<and> (\<forall>i < length (n # ns).
                (\<forall>m. map_of (trained_models s) ((n # ns) ! i) = Some m \<longrightarrow> new' ! i = m)
              \<and> map_of (trained_models s') ((n # ns) ! i) = Some (new' ! i))"
    proof (intro exI [of _ "m # new"] conjI)
      show "bms' = bms @ m # new" using new by simp
      show "length (m # new) = length (n # ns)" using new by simp
      show "\<forall>i < length (n # ns).
                (\<forall>ma. map_of (trained_models s) ((n # ns) ! i) = Some ma \<longrightarrow> (m # new) ! i = ma)
              \<and> map_of (trained_models s') ((n # ns) ! i) = Some ((m # new) ! i)"
      proof (intro allI impI)
        fix i assume i: "i < length (n # ns)"
        show "(\<forall>ma. map_of (trained_models s) ((n # ns) ! i) = Some ma \<longrightarrow> (m # new) ! i = ma)
              \<and> map_of (trained_models s') ((n # ns) ! i) = Some ((m # new) ! i)"
          using i idx Some keep by (cases i) auto
      qed
    qed
    have 3: "\<forall>n'. n' \<notin> set (n # ns) \<or> map_of (trained_models s) n' \<noteq> None \<longrightarrow>
          map_of (trained_models s') n' = map_of (trained_models s) n'"
      using frame by auto
    from 1 2 3 show ?thesis by blast
  next
    case None
    obtain r s1 where tm: "train_model k lib d n None s = (r, s1)" by force
    from Cons.prems(2) None tm obtain m where r: "r = Inr m"
      and loop: "train_base_models k lib d ns (bms @ [m]) s1 = (Inr bms', s')"
      by (cases r) auto
    have neq: "n \<noteq> ''hybrid_ensemble''"
    proof
      assume h: "n = ''hybrid_ensemble''"
      with Cons.prems(1) have "\<forall>cm. config_models lib = Some cm \<longrightarrow>
          ''hybrid_ensemble'' \<in> set (base_model_names cm)" by simp
      from nested_ensemble_fails(1) [OF this h, of s k d None] None h tm r show False by simp
    qed
    from train_model_base [OF neq tm] r
    have s1: "s1 = s\<lparr>trained_models := AList.update n m (trained_models s),
                     fit_calls := fit_calls s @ [FitBase n]\<rparr>"
      by auto
    from Cons.IH [OF A loop] obtain new
      where calls: "fit_calls s' = fit_calls s1 @ map FitBase (uncached (map fst (trained_models s1)) ns)"
        and new: "bms' = (bms @ [m]) @ new" "length new = length ns"
        and idx: "\<forall>i < length ns.
                (\<forall>m. map_of (trained_models s1) (ns ! i) = Some m \<longrightarrow> new ! i = m)
              \<and> map_of (trained_models s') (ns ! i) = Some (new ! i)"
        and frame: "\<forall>n. n \<notin> set ns \<or> map_of (trained_models s1) n \<noteq> None \<longrightarrow>
          map_of (trained_models s') n = map_of (trained_models s1) n"
      by blast
    have unseen: "n \<notin> set (map fst (trained_models s))"
      using None cached_iff [of "trained_models s" n] by simp
    have look1: "map_of (trained_models s1) x = (if x = n then Some m else map_of (trained_models s) x)" for x
      by (simp add: s1 update_conv')
    have "set (map fst (trained_models s1)) = set (n # map fst (trained_models s))"
      by (simp add: s1 dom_update)
    then have "uncached (map fst (trained_models s1)) ns = uncached (n # map fst (trained_models s)) ns"
      by (rule uncached_cong)
    with calls unseen
    have 1: "fit_calls s' = fit_calls s @ map FitBase (uncached (map fst (trained_models s)) (n # ns))"
      by (simp add: s1)
    have keep: "map_of (trained_models s') n = Some m" using frame look1 by simp
    have 2: "\<exists>new'. bms' = bms @ new' \<and> length new' = length (n # ns)
          \<and> (\<forall>i < length (n # ns).
                (\<forall>m. map_of (trained_models s) ((n # ns) ! i) = Some m \<longrightarrow> new' ! i = m)
              \<and> map_of (trained_models s') ((n # ns) ! i) = Some (new' ! i))"
    proof (intro exI [of _ "m # new"] conjI)
      show "bms' = bms @ m # new" using new by simp
      show "length (m # new) = length (n # ns)" using new by simp
      show "\<forall>i < length (n # ns).
                (\<forall>ma. map_of (trained_models s) ((n # ns) ! i) = Some ma \<longrightarrow> (m # new) ! i = ma)
              \<and> map_of (trained_models s') ((n # ns) ! i) = Some ((m # new) ! i)"
      proof (intro allI impI)
        fix i assume i: "i < length (n # ns)"
        have a: "\<forall>ma. map_of (trained_models s) ((n # ns) ! i) = Some ma \<longrightarrow> (m # new) ! i = ma"
        proof (cases i)
          case 0
          with None show ?thesis by simp
        next
          case (Suc j)
          with i have j: "j < length ns" by simp
          show ?thesis
          proof (intro allI impI)
            fix ma assume c: "map_of (trained_models s) ((n # ns) ! i) = Some ma"
            with Suc None have "ns ! j \<noteq> n" by auto
            with c Suc have "map_of (trained_models s1) (ns ! j) = Some ma" by (simp add: look1)
            with idx j have "new ! j = ma" by blast
            with Suc show "(m # new) ! i = ma" by simp
          qed
        qed
        have b: "map_of (trained_models s') ((n # ns) ! i) = Some ((m # new) ! i)"
          using i idx keep by (cases i) auto
        from a b show "(\<forall>ma. map_of (trained_models s) ((n # ns) ! i) = Some ma \<longrightarrow> (m # new) ! i = ma)
              \<and> map_of (trained_models s') ((n # ns) ! i) = Some ((m # new) ! i)"
          by (rule conjI)
      qed
    qed
    have 3: "\<forall>n'. n' \<notin> set (n # ns) \<or> map_of (trained_models s) n' \<noteq> None \<longrightarrow>
          map_of (trained_models s') n' = map_of (trained_models s) n'"
    proof (intro allI impI)
      fix n' assume a: "n' \<notin> set (n # ns) \<or> map_of (trained_models s) n' \<noteq> None"
      with None have ne: "n' \<noteq> n" by auto
      from a have "n' \<notin> set ns \<or> map_of (trained_models s1) n' \<noteq> None" by (auto simp: look1)
      with frame have "map_of (trained_models s') n' = map_of (trained_models s1) n'" by blast
      with ne show "map_of (trained_models s') n' = map_of (trained_models s) n'"
        by (simp add: look1)
    qed
    from 1 2 3 show ?thesis by blast
  qed
qed


lemma fit_success:
  "fit lib e d calls = (Inr ens, calls') \<Longrightarrow>
   base_models ens = base_models e \<and> calls' = calls @ [FitEnsemble]"
  by (auto simp: fit_def split: if_splits sum.splits option.splits)

lemma fit_success_estimator:
  "fit lib (new_ensemble lib bms ps) d calls = (Inr ens, calls') \<Longrightarrow>
   \<exists>h h'. vote_ext lib (map model (base_models ens)) (params ens) = Inr h
     \<and> fit_ext lib h d = Inr h' \<and> model ens = Some h'
     \<and> model_name ens = ''hybrid_ensemble'' \<and> is_trained ens"
  by (auto simp: fit_def build_def new_ensemble_def split: if_splits sum.splits)

lemma train_ensemble_success:
  assumes "train_ensemble k lib d ps s = (Inr ens, s')"
  shows "\<exists>cm. config_models lib = Some cm
     \<and> length (base_models ens) = length (base_model_names cm)
     \<and> (\<forall>i < length (base_model_names cm).
           (\<forall>m. map_of (trained_models s) (base_model_names cm ! i) = Some m
                \<longrightarrow> base_models ens ! i = m)
         \<and> (base_model_names cm ! i \<noteq> ''hybrid_ensemble''
                \<longrightarrow> map_of (trained_models s') (base_model_names cm ! i)
                      = Some (base_models ens ! i)))
     \<and> fit_calls s' = fit_calls s
          @ map FitBase (uncached (map fst (trained_models s)) (base_model_names cm))
          @ [FitEnsemble]
     \<and> map_of (trained_models s') ''hybrid_ensemble'' = Some ens
     \<and> (\<exists>h h'. vote_ext lib (map model (base_models ens)) (params ens) = Inr h
           \<and> fit_ext lib h d = Inr h' \<and> model ens = Some h')"
proof (cases k)
  case 0
  with assms show ?thesis by simp
next
  case (Suc k')
  from assms Suc obtain cm where cm: "config_models lib = Some cm"
    by (cases "config_models lib") auto
  let ?ns = "base_model_names cm"
  obtain r1 s1 where loop: "train_base_models k' lib d ?ns [] s = (r1, s1)" by force
  from assms Suc cm loop obtain bms where r1: "r1 = Inr bms" by (cases r1) auto
  obtain r2 calls where f: "fit lib (new_ensemble lib bms ps) d (fit_calls s1) = (r2, calls)"
    by force
  from assms Suc cm loop r1 f have r2: "r2 = Inr ens"
    and s': "s' = s1\<lparr>trained_models := AList.update ''hybrid_ensemble'' ens (trained_models s1),
                     fit_calls := calls\<rparr>"
    by (cases r2; simp)+
  from fit_success [OF f [unfolded r2]]
  have bm: "base_models ens = bms" and calls: "calls = fit_calls s1 @ [FitEnsemble]"
    by (simp_all add: new_ensemble_def)
  have "''hybrid_ensemble'' \<in> set ?ns \<longrightarrow>
      (\<forall>cm'. config_models lib = Some cm' \<longrightarrow> ''hybrid_ensemble'' \<in> set (base_model_names cm'))"
    using cm by simp
  from train_base_models_success [OF this loop [unfolded r1]]
  have c1: "fit_calls s1 = fit_calls s @ map FitBase (uncached (map fst (trained_models s)) ?ns)"
    and len: "length bms = length ?ns"
    and idx: "\<forall>i < length ?ns.
                (\<forall>m. map_of (trained_models s) (?ns ! i) = Some m \<longrightarrow> bms ! i = m)
              \<and> map_of (trained_models s1) (?ns ! i) = Some (bms ! i)"
    by auto
  from fit_success_estimator [OF f [unfolded r2]]
  have est: "\<exists>h h'. vote_ext lib (map model (base_models ens)) (params ens) = Inr h
           \<and> fit_ext lib h d = Inr h' \<and> model ens = Some h'"
    by blast
  show ?thesis
    using cm bm calls c1 len idx est by (intro exI [of _ cm]) (simp add: s' update_conv')
qed

lemma base_model_names_nonempty: "base_model_names cm \<noteq> []"
  by (simp add: base_model_names_def default_base_models_def Let_def)

lemma train_base_models_total:
  assumes build: "\<forall>n p. \<exists>h. build_ext lib n p = Inr h"
    and fitok: "\<forall>h. \<exists>h'. fit_ext lib h d = Inr h'"
    and names: "set ns \<subseteq> set MODEL_REGISTRY"
    and hyb: "''hybrid_ensemble'' \<in> set ns \<longrightarrow>
                map_of (trained_models s) ''hybrid_ensemble'' \<noteq> None"
  shows "\<exists>bms' s'. train_base_models (Suc k) lib d ns bms s = (Inr bms', s')"
  using names hyb
proof (induction ns arbitrary: bms s)
  case Nil
  show ?case by simp
next
  case (Cons n ns)
  from Cons.prems have sub: "set ns \<subseteq> set MODEL_REGISTRY" and reg: "n \<in> set MODEL_REGISTRY"
    by simp_all
  show ?case
  proof (cases "map_of (trained_models s) n")
    case (Some m)
    from Cons.prems(2) have "''hybrid_ensemble'' \<in> set ns \<longrightarrow>
        map_of (trained_models s) ''hybrid_ensemble'' \<noteq> None" by simp
    from Cons.IH [OF sub this, of "bms @ [m]"] Some show ?thesis by simp
  next
    case None
    with Cons.prems(2) have neq: "n \<noteq> ''hybrid_ensemble''" by auto
    from build obtain h where h: "build_ext lib n (config_params lib n) = Inr h" by blast
    from fitok obtain h' where h': "fit_ext lib h d = Inr h'" by blast
    let ?m = "BaseModel n (config_params lib n) (Some h') True []"
    let ?s1 = "s\<lparr>trained_models := AList.update n ?m (trained_models s),
                 fit_calls := fit_calls s @ [FitBase n]\<rparr>"
    have tm: "train_model (Suc k) lib d n None s = (Inr ?m, ?s1)"
      using reg neq h h' by (simp add: new_model_def base_fit_def)
    have "''hybrid_ensemble'' \<in> set ns \<longrightarrow>
        map_of (trained_models ?s1) ''hybrid_ensemble'' \<noteq> None"
      using Cons.prems(2) neq by (simp add: update_conv')
    from Cons.IH [OF sub this, of "bms @ [?m]"] None tm show ?thesis by simp
  qed
qed


lemma train_ensemble_total:
  assumes cfg: "config_models lib = Some cm"
    and names: "set (base_model_names cm) \<subseteq> set MODEL_REGISTRY"
    and hyb: "''hybrid_ensemble'' \<in> set (base_model_names cm) \<longrightarrow>
                map_of (trained_models s) ''hybrid_ensemble'' \<noteq> None"
    and build: "\<forall>n p. \<exists>h. build_ext lib n p = Inr h"
    and fitok: "\<forall>h. \<exists>h'. fit_ext lib h d = Inr h'"
    and vote: "\<forall>clfs p. \<exists>h. vote_ext lib clfs p = Inr h"
  shows "\<exists>ens s'. train_ensemble (Suc (Suc k)) lib d ps s = (Inr ens, s')"
proof -
  let ?ns = "base_model_names cm"
  from train_base_models_total [OF build fitok names hyb, of k "[]"]
  obtain bms s1 where loop: "train_base_models (Suc k) lib d ?ns [] s = (Inr bms, s1)"
    by blast
  have "''hybrid_ensemble'' \<in> set ?ns \<longrightarrow>
      (\<forall>cm'. config_models lib = Some cm' \<longrightarrow> ''hybrid_ensemble'' \<in> set (base_model_names cm'))"
    using cfg by simp
  from train_base_models_success [OF this loop] have "length bms = length ?ns" by auto
  with base_model_names_nonempty [of cm] have ne: "bms \<noteq> []" by auto
  let ?e = "new_ensemble lib bms ps"
  from vote obtain h where h: "vote_ext lib (map model bms) (params ?e) = Inr h" by blast
  from fitok obtain h' where h': "fit_ext lib h d = Inr h'" by blast
  have "fit lib ?e d (fit_calls s1)
      = (Inr (BaseModel (model_name ?e) (params ?e) (Some h') True (base_models ?e)),
         fit_calls s1 @ [FitEnsemble])"
    using ne h h' by (simp add: fit_def build_def new_ensemble_def)
  with cfg loop show ?thesis by simp
qed

text \<open>
  Claim C6, as stated, fails for the final fit: with a voting estimator that fits its
  base estimators when it is fitted, resolving the ensemble over a cache that holds
  \<^verbatim>\<open>logistic_regression\<close>, fitted once, ends with an ensemble whose estimator
  holds both base estimators fitted a second time.
\<close>

theorem final_fit_refits_base_models:
  "map_of (trained_models lr_cached) ''logistic_regression'' = Some trained_lr
   \<and> model trained_lr = Some (Clf ''logistic_regression'' 1)
   \<and> fst (train_ensemble 2 refitting_lib () None lr_cached)
       = Inr (BaseModel ''hybrid_ensemble'' ()
                (Some (Vote [Clf ''logistic_regression'' 2, Clf ''gradient_boosting'' 2])) True
                [trained_lr,
                 BaseModel ''gradient_boosting'' () (Some (Clf ''gradient_boosting'' 1)) True []])"
  by (simp add: eval_nat_numeral refitting_lib_def lr_cached_def trained_lr_def
      base_model_names_def default_base_models_def MODEL_REGISTRY_def new_model_def
      base_fit_def new_ensemble_def fit_def build_def)

text \<open>
  Claim C6, amended. Whatever the outcome of resolving the ensemble, no base model's
  \<^verbatim>\<open>fit\<close> is called for a name that was in the cache of trained models when the
  resolution started. When the resolution succeeds, the ensemble holds one base model
  per name of the spec, the cached model itself for every name that was cached; the
  names fitted are exactly the uncached ones, each once and in order, and each of them
  is in the cache afterwards with the model the ensemble holds; the only other call of
  a \<^verbatim>\<open>fit\<close> is the final one, a single call of the \<^verbatim>\<open>fit\<close> of the voting
  estimator built over the estimators of the base models, whose result the ensemble
  holds and which is cached under \<^verbatim>\<open>"hybrid_ensemble"\<close>; what that call fits is
  left to the voting estimator. The resolution does succeed when the configuration
  has the ensemble section, the names are known models, \<^verbatim>\<open>"hybrid_ensemble"\<close> is
  not an uncached base model, the external constructors and fits succeed and two call
  frames are available.
\<close>

theorem ensemble_reuses_cached_models:
  "(\<exists>evs. fit_calls (snd (train_ensemble k lib d ps s)) = fit_calls s @ evs
        \<and> (\<forall>n. map_of (trained_models s) n \<noteq> None \<longrightarrow> FitBase n \<notin> set evs))
   \<and> (train_ensemble k lib d ps s = (Inr ens, s') \<longrightarrow>
        (\<exists>cm. config_models lib = Some cm
           \<and> length (base_models ens) = length (base_model_names cm)
           \<and> (\<forall>i < length (base_model_names cm).
                 (\<forall>m. map_of (trained_models s) (base_model_names cm ! i) = Some m
                      \<longrightarrow> base_models ens ! i = m)
               \<and> (base_model_names cm ! i \<noteq> ''hybrid_ensemble''
                      \<longrightarrow> map_of (trained_models s') (base_model_names cm ! i)
                            = Some (base_models ens ! i)))
           \<and> fit_calls s' = fit_calls s
                @ map FitBase (uncached (map fst (trained_models s)) (base_model_names cm))
                @ [FitEnsemble]
           \<and> set (uncached (map fst (trained_models s)) (base_model_names cm))
               = set (base_model_names cm) - set (map fst (trained_models s))
           \<and> distinct (uncached (map fst (trained_models s)) (base_model_names cm))
           \<and> map_of (trained_models s') ''hybrid_ensemble'' = Some ens
           \<and> (\<exists>h h'. vote_ext lib (map model (base_models ens)) (params ens) = Inr h
                 \<and> fit_ext lib h d = Inr h' \<and> model ens = Some h')))
   \<and> (config_models lib = Some c
        \<and> set (base_model_names c) \<subseteq> set MODEL_REGISTRY
        \<and> (''hybrid_ensemble'' \<in> set (base_model_names c)
              \<longrightarrow> map_of (trained_models s) ''hybrid_ensemble'' \<noteq> None)
        \<and> (\<forall>n p. \<exists>h. build_ext lib n p = Inr h)
        \<and> (\<forall>h. \<exists>h'. fit_ext lib h d = Inr h')
        \<and> (\<forall>clfs p. \<exists>h. vote_ext lib clfs p = Inr h)
        \<and> 2 \<le> k
      \<longrightarrow> (\<exists>ens' s''. train_ensemble k lib d ps s = (Inr ens', s'')))"
proof (intro conjI)
  from training_continues(2) [of s k lib d ps]
  obtain evs where "fit_calls (snd (train_ensemble k lib d ps s)) = fit_calls s @ evs"
    and "\<forall>n. FitBase n \<in> set evs \<longrightarrow> map_of (trained_models s) n = None"
    unfolding continues_def by blast
  then show "\<exists>evs. fit_calls (snd (train_ensemble k lib d ps s)) = fit_calls s @ evs
        \<and> (\<forall>n. map_of (trained_models s) n \<noteq> None \<longrightarrow> FitBase n \<notin> set evs)"
    by (intro exI [of _ evs]) auto
next
  show "train_ensemble k lib d ps s = (Inr ens, s') \<longrightarrow>
        (\<exists>cm. config_models lib = Some cm
           \<and> length (base_models ens) = length (base_model_names cm)
           \<and> (\<forall>i < length (base_model_names cm).
                 (\<forall>m. map_of (trained_models s) (base_model_names cm ! i) = Some m
                      \<longrightarrow> base_models ens ! i = m)
               \<and> (base_model_names cm ! i \<noteq> ''hybrid_ensemble''
                      \<longrightarrow> map_of (trained_models s') (base_model_names cm ! i)
                            = Some (base_models ens ! i)))
           \<and> fit_calls s' = fit_calls s
                @ map FitBase (uncached (map fst (trained_models s)) (base_model_names cm))
                @ [FitEnsemble]
           \<and> set (uncached (map fst (trained_models s)) (base_model_names cm))
               = set (base_model_names cm) - set (map fst (trained_models s))
           \<and> distinct (uncached (map fst (trained_models s)) (base_model_names cm))
           \<and> map_of (trained_models s') ''hybrid_ensemble'' = Some ens
           \<and> (\<exists>h h'. vote_ext lib (map model (base_models ens)) (params ens) = Inr h
                 \<and> fit_ext lib h d = Inr h' \<and> model ens = Some h'))"
  proof
    assume "train_ensemble k lib d ps s = (Inr ens, s')"
    from train_ensemble_success [OF this] show "\<exists>cm. config_models lib = Some cm
           \<and> length (base_models ens) = length (base_model_names cm)
           \<and> (\<forall>i < length (base_model_names cm).
                 (\<forall>m. map_of (trained_models s) (base_model_names cm ! i) = Some m
                      \<longrightarrow> base_models ens ! i = m)
               \<and> (base_model_names cm ! i \<noteq> ''hybrid_ensemble''
                      \<longrightarrow> map_of (trained_models s') (base_model_names cm ! i)
                            = Some (base_models ens ! i)))
           \<and> fit_calls s' = fit_calls s
                @ map FitBase (uncached (map fst (trained_models s)) (base_model_names cm))
                @ [FitEnsemble]
           \<and> set (uncached (map fst (trained_models s)) (base_model_names cm))
               = set (base_model_names cm) - set (map fst (trained_models s))
           \<and> distinct (uncached (map fst (trained_models s)) (base_model_names cm))
           \<and> map_of (trained_models s') ''hybrid_ensemble'' = Some ens
           \<and> (\<exists>h h'. vote_ext lib (map model (base_models ens)) (params ens) = Inr h
                 \<and> fit_ext lib h d = Inr h' \<and> model ens = Some h')"
      by (simp add: uncached_set uncached_distinct)
  qed
next
  show "config_models lib = Some c
        \<and> set (base_model_names c) \<subseteq> set MODEL_REGISTRY
        \<and> (''hybrid_ensemble'' \<in> set (base_model_names c)
              \<longrightarrow> map_of (trained_models s) ''hybrid_ensemble'' \<noteq> None)
        \<and> (\<forall>n p. \<exists>h. build_ext lib n p = Inr h)
        \<and> (\<forall>h. \<exists>h'. fit_ext lib h d = Inr h')
        \<and> (\<forall>clfs p. \<exists>h. vote_ext lib clfs p = Inr h)
        \<and> 2 \<le> k
      \<longrightarrow> (\<exists>ens' s''. train_ensemble k lib d ps s = (Inr ens', s''))"
  proof
    assume a: "config_models lib = Some c
        \<and> set (base_model_names c) \<subseteq> set MODEL_REGISTRY
        \<and> (''hybrid_ensemble'' \<in> set (base_model_names c)
              \<longrightarrow> map_of (trained_models s) ''hybrid_ensemble'' \<noteq> None)
        \<and> (\<forall>n p. \<exists>h. build_ext lib n p = Inr h)
        \<and> (\<forall>h. \<exists>h'. fit_ext lib h d = Inr h')
        \<and> (\<forall>clfs p. \<exists>h. vote_ext lib clfs p = Inr h)
        \<and> 2 \<le> k"
    then obtain j where k: "k = Suc (Suc j)" by (metis Suc_le_D numeral_2_eq_2 Suc_le_mono)
    from a have cfg: "config_models lib = Some c"
      and names: "set (base_model_names c) \<subseteq> set MODEL_REGISTRY"
      and hyb: "''hybrid_ensemble'' \<in> set (base_model_names c)
              \<longrightarrow> map_of (trained_models s) ''hybrid_ensemble'' \<noteq> None"
      and build: "\<forall>n p. \<exists>h. build_ext lib n p = Inr h"
      and fitok: "\<forall>h. \<exists>h'. fit_ext lib h d = Inr h'"
      and vote: "\<forall>clfs p. \<exists>h. vote_ext lib clfs p = Inr h"
      by blast+
    from train_ensemble_total [OF cfg names hyb build fitok vote, of j ps]
    show "\<exists>ens' s''. train_ensemble k lib d ps s = (Inr ens', s'')" unfolding k .
  qed
qed

lemma config_models_irrelevant [simp]:
  "new_model (lib\<lparr>config_models := c\<rparr>) = new_model lib"
  "base_fit (lib\<lparr>config_models := c\<rparr>) = base_fit lib"
  "new_ensemble (lib\<lparr>config_models := c\<rparr>) = new_ensemble lib"
  "fit (lib\<lparr>config_models := c\<rparr>) = fit lib"
  by (simp_all add: fun_eq_iff new_model_def base_fit_def new_ensemble_def fit_def build_def
      Let_def cong: option.case_cong sum.case_cong)

lemma training_config_cong:
  shows "map_option base_model_names (config_models lib) = map_option base_model_names c \<Longrightarrow>
         train_model k (lib\<lparr>config_models := c\<rparr>) d name ps s = train_model k lib d name ps s"
    and "map_option base_model_names (config_models lib) = map_option base_model_names c \<Longrightarrow>
         train_ensemble k (lib\<lparr>config_models := c\<rparr>) d ps s = train_ensemble k lib d ps s"
    and "map_option base_model_names (config_models lib) = map_option base_model_names c \<Longrightarrow>
         train_base_models k (lib\<lparr>config_models := c\<rparr>) d ns bms s
           = train_base_models k lib d ns bms s"
proof (induction k lib d name ps s and k lib d ps s and k lib d ns bms s
    rule: train_model_train_ensemble_train_base_models.induct)
  case (1 lib d name ps s)
  show ?case by simp
next
  case (2 k lib d name ps s)
  then show ?case by (simp cong: sum.case_cong)
next
  case (3 lib d ps s)
  show ?case by simp
next
  case (4 k lib d ps s)
  show ?case
  proof (cases "config_models lib")
    case None
    with "4.prems" have "c = None" by simp
    with None show ?thesis by simp
  next
    case (Some cm)
    with "4.prems" obtain cm' where c: "c = Some cm'"
      and eq: "base_model_names cm' = base_model_names cm"
      by (cases c) auto
    from "4.IH" [OF Some "4.prems"] eq c Some show ?thesis
      by (simp split: prod.splits sum.splits)
  qed
next
  case (5 k lib d bms s)
  show ?case by simp
next
  case (6 k lib d name names bms s)
  show ?case
  proof (cases "map_of (trained_models s) name")
    case (Some m)
    with "6.IH"(3) [OF Some "6.prems"] show ?thesis by simp
  next
    case None
    obtain r s1 where tm: "train_model k lib d name None s = (r, s1)" by force
    from "6.IH"(1) [OF None "6.prems"] tm
    have tm': "train_model k (lib\<lparr>config_models := c\<rparr>) d name None s = (r, s1)" by simp
    show ?thesis
    proof (cases r)
      case (Inl e)
      with None tm tm' show ?thesis by simp
    next
      case (Inr m)
      from "6.IH"(2) [OF None tm [symmetric] Inr "6.prems"] None tm tm' Inr
      show ?thesis by simp
    qed
  qed
qed

text \<open>
  Claim C2, as stated, fails: with an empty list of base-model names configured and
  nothing cached, resolving the ensemble succeeds after fitting the three default base
  models and the ensemble.
\<close>

theorem empty_ensemble_spec_trains_defaults:
  "config_models example_training_lib = Some (Some [])
   \<and> \<not> isl (fst (train_ensemble 2 example_training_lib () None empty_trainer))
   \<and> fit_calls (snd (train_ensemble 2 example_training_lib () None empty_trainer))
       = [FitBase ''logistic_regression'', FitBase ''gradient_boosting'',
          FitBase ''neural_network'', FitEnsemble]"
  by (simp add: eval_nat_numeral example_training_lib_def empty_trainer_def
      base_model_names_def default_base_models_def MODEL_REGISTRY_def new_model_def
      base_fit_def new_ensemble_def fit_def build_def)

text \<open>
  Claim C2, amended. An empty list of base-model names in the ensemble spec (or none
  at all) is replaced by the default names \<^verbatim>\<open>logistic_regression\<close>,
  \<^verbatim>\<open>gradient_boosting\<close>, \<^verbatim>\<open>neural_network\<close>, and resolving the ensemble
  proceeds exactly as if these had been listed. Only the ensemble class itself, given
  an empty list of base models, raises \<^verbatim>\<open>ValueError\<close>, from \<^verbatim>\<open>fit\<close> and
  from \<^verbatim>\<open>build\<close>, before any estimator is built or fitted.
\<close>

theorem empty_ensemble_spec_defaults:
  "train_ensemble k (lib\<lparr>config_models := Some (Some [])\<rparr>) d ps s
     = train_ensemble k (lib\<lparr>config_models := Some (Some default_base_models)\<rparr>) d ps s
   \<and> train_ensemble k (lib\<lparr>config_models := Some None\<rparr>) d ps s
     = train_ensemble k (lib\<lparr>config_models := Some (Some default_base_models)\<rparr>) d ps s
   \<and> default_base_models = [''logistic_regression'', ''gradient_boosting'', ''neural_network'']
   \<and> fit lib (new_ensemble lib [] ps) d calls
       = (Inl (ValueError ''Base models must be set and trained before fitting ensemble''), calls)
   \<and> build lib (new_ensemble lib [] ps)
       = Inl (ValueError ''Base models must be set before building ensemble'')"
proof -
  let ?lib = "lib\<lparr>config_models := Some (Some default_base_models)\<rparr>"
  have "train_ensemble k (?lib\<lparr>config_models := Some (Some [])\<rparr>) d ps s
      = train_ensemble k ?lib d ps s"
    by (rule training_config_cong(2)) (simp add: base_model_names_def default_base_models_def)
  moreover have "train_ensemble k (?lib\<lparr>config_models := Some None\<rparr>) d ps s
      = train_ensemble k ?lib d ps s"
    by (rule training_config_cong(2)) (simp add: base_model_names_def default_base_models_def)
  ultimately show ?thesis
    by (simp add: default_base_models_def fit_def build_def new_ensemble_def)
qed

theorem empty_ensemble_spec_defaults_witness:
  "train_ensemble 2 example_training_lib () None empty_trainer
     = train_ensemble 2 (example_training_lib\<lparr>config_models := Some (Some default_base_models)\<rparr>)
         () None empty_trainer
   \<and> fit example_training_lib (new_ensemble example_training_lib [] None) () []
       = (Inl (ValueError ''Base models must be set and trained before fitting ensemble''), [])"
  using empty_ensemble_spec_defaults [of 2 example_training_lib "()" None empty_trainer "[]"]
  by (simp add: example_training_lib_def)

theorem ensemble_reuses_cached_models_witness:
  "train_ensemble 2
      (example_training_lib\<lparr>config_models :=
         Some (Some [''logistic_regression'', ''gradient_boosting''])\<rparr>) () None
      \<lparr>trained_models = [(''logistic_regression'', cached_lr)], fit_calls = []\<rparr>
    = (Inr (BaseModel ''hybrid_ensemble'' () (Some ''vote*'') True
              [cached_lr, BaseModel ''gradient_boosting'' () (Some ''gradient_boosting*'') True []]),
       \<lparr>trained_models =
          [(''logistic_regression'', cached_lr),
           (''gradient_boosting'',
            BaseModel ''gradient_boosting'' () (Some ''gradient_boosting*'') True []),
           (''hybrid_ensemble'',
            BaseModel ''hybrid_ensemble'' () (Some ''vote*'') True
              [cached_lr,
               BaseModel ''gradient_boosting'' () (Some ''gradient_boosting*'') True []])],
        fit_calls = [FitBase ''gradient_boosting'', FitEnsemble]\<rparr>)
   \<and> uncached [''logistic_regression''] [''logistic_regression'', ''gradient_boosting'']
       = [''gradient_boosting'']"
proof -
  let ?names = "[''logistic_regression'', ''gradient_boosting'']"
  let ?L = "example_training_lib\<lparr>config_models := Some (Some ?names)\<rparr>"
  let ?S = "\<lparr>trained_models = [(''logistic_regression'', cached_lr)], fit_calls = []\<rparr>
              :: (unit, string) trainer"
  let ?gb = "BaseModel ''gradient_boosting'' () (Some ''gradient_boosting*'') True []
              :: (unit, string) base_model"
  let ?E = "BaseModel ''hybrid_ensemble'' () (Some ''vote*'') True [cached_lr, ?gb]"
  have hyps: "config_models ?L = Some (Some ?names)
        \<and> set (base_model_names (Some ?names)) \<subseteq> set MODEL_REGISTRY
        \<and> (''hybrid_ensemble'' \<in> set (base_model_names (Some ?names))
              \<longrightarrow> map_of (trained_models ?S) ''hybrid_ensemble'' \<noteq> None)
        \<and> (\<forall>n p. \<exists>h. build_ext ?L n p = Inr h)
        \<and> (\<forall>h. \<exists>h'. fit_ext ?L h () = Inr h')
        \<and> (\<forall>clfs p. \<exists>h. vote_ext ?L clfs p = Inr h)
        \<and> (2::nat) \<le> 2"
    by (simp add: example_training_lib_def base_model_names_def MODEL_REGISTRY_def)
  from ensemble_reuses_cached_models [of 2 ?L "()" None ?S _ _ "Some ?names"] hyps
  obtain ens s' where run: "train_ensemble 2 ?L () None ?S = (Inr ens, s')" by blast
  from ensemble_reuses_cached_models [of 2 ?L "()" None ?S ens s'] run
  have calls: "fit_calls s' = map FitBase (uncached [''logistic_regression''] ?names) @ [FitEnsemble]"
    and reuse: "base_models ens ! 0 = cached_lr"
    by (auto simp: example_training_lib_def base_model_names_def)
  have un: "uncached [''logistic_regression''] ?names = [''gradient_boosting'']" by simp
  have "train_ensemble 2 ?L () None ?S
      = (Inr ?E,
         \<lparr>trained_models = [(''logistic_regression'', cached_lr), (''gradient_boosting'', ?gb),
            (''hybrid_ensemble'', ?E)],
          fit_calls = [FitBase ''gradient_boosting'', FitEnsemble]\<rparr>)"
    using run calls reuse
    by (simp add: eval_nat_numeral example_training_lib_def
      base_model_names_def default_base_models_def MODEL_REGISTRY_def new_model_def
      base_fit_def new_ensemble_def fit_def build_def)
  with un show ?thesis by simp
qed

section \<open>Properties of the drift monitor\<close>

















end
